theory Spec2Isabelle
  imports Main "HOL-Library.AList"
begin

section \<open>sheriff: marshalling structs into filtered maps\<close>

text \<open>
  A shallow embedding of \<^verbatim>\<open>group_set.go\<close> and of the walker
  (\<^verbatim>\<open>Marshal\<close>, \<^verbatim>\<open>marshalObject\<close>, \<^verbatim>\<open>marshalValue\<close>).
  The Go code inspects its input through \<^verbatim>\<open>reflect\<close>; the embedding replaces
  the reflected Go value by a datatype that holds exactly what the walker reads from it:
  its kind, whether its dynamic type implements one of the interfaces the walker asks
  for, its fields with their tags, its elements and its entries.
\<close>

subsection \<open>group\_set.go\<close>

text \<open>
  \<^verbatim>\<open>type groupSet map[string]int\<close>. The map is an association list with one
  entry per key; nothing in the package ranges over a groupSet, so the order of the list
  stands for nothing. Reading an absent key gives the zero value \<open>0\<close>, and
  \<^verbatim>\<open>s[g]++\<close> on an absent key stores the key with count \<open>1\<close>. Go's
  \<^verbatim>\<open>int\<close> is taken unbounded: a count changes by one per nested field.
\<close>

type_synonym groupSet = "(string \<times> int) list"

definition index :: "groupSet \<Rightarrow> string \<Rightarrow> int" where
  "index s g = (case map_of s g of None \<Rightarrow> 0 | Some c \<Rightarrow> c)"

definition len :: "groupSet \<Rightarrow> nat" where
  "len s = length (remdups (map fst s))"

fun incrementGroups :: "groupSet \<Rightarrow> string list \<Rightarrow> groupSet" where
  "incrementGroups s [] = s"
| "incrementGroups s (g # groups) =
     incrementGroups (AList.update g (index s g + 1) s) groups"

fun decrementGroups :: "groupSet \<Rightarrow> string list \<Rightarrow> groupSet" where
  "decrementGroups s [] = s"
| "decrementGroups s (g # groups) =
     decrementGroups (AList.update g (index s g - 1) s) groups"

definition contains :: "groupSet \<Rightarrow> string \<Rightarrow> bool" where
  "contains s g = (index s g > 0)"

fun containsAny :: "groupSet \<Rightarrow> string list \<Rightarrow> bool" where
  "containsAny s [] = False"
| "containsAny s (g # groups) = (if contains s g then True else containsAny s groups)"

subsection \<open>Reflected values\<close>

text \<open>
  The kinds of \<^verbatim>\<open>reflect.Kind\<close>. \<^verbatim>\<open>reflect.Int\<close> is \<open>Int_kind\<close>:
  the bare name is taken by the notation for intersection.
\<close>

datatype kind =
    Invalid | Bool | Int_kind | Int8 | Int16 | Int32 | Int64
  | Uint | Uint8 | Uint16 | Uint32 | Uint64 | Uintptr
  | Float32 | Float64 | Complex64 | Complex128
  | Array | Chan | Func | Interface | Map | Ptr | Slice | String | Struct | UnsafePointer

text \<open>
  What the walker's type assertions find in the method set of a value's dynamic type:
  the package's own \<^verbatim>\<open>Marshaller\<close>; failing that, one of
  \<^verbatim>\<open>json.Marshaler\<close>, \<^verbatim>\<open>encoding.TextMarshaler\<close>,
  \<^verbatim>\<open>fmt.Stringer\<close>; or none of them.
\<close>

datatype capability = Plain | SelfDescribing | SelfMarshalling

text \<open>
  The payload of a value that has no parts the walker descends into. Numbers of every
  numeric kind carry an integer (the walker never computes with them), an array its
  length (the walker hands an array on as it is), and \<open>OtherVal\<close> stands for the
  kinds of which nothing is read (channels, functions).
\<close>

datatype base = BoolVal bool | NumVal int | StringVal string | ArrayVal nat | OtherVal

text \<open>
  The key type of a map: the predeclared type \<^verbatim>\<open>string\<close>, or another type, of
  the given kind. A defined type whose underlying type is \<^verbatim>\<open>string\<close> is
  \<open>OtherKey String\<close>: its kind is String, and the type assertion
  \<^verbatim>\<open>key.Interface().(string)\<close> of line 240 fails on it.
\<close>

datatype keytype = StringKey | OtherKey kind

fun key_kind :: "keytype \<Rightarrow> kind" where
  "key_kind StringKey = String"
| "key_kind (OtherKey k) = k"

text \<open>
  A \<^verbatim>\<open>reflect.Value\<close>.
  \<^item> \<open>VInvalid\<close> is the zero Value: \<^verbatim>\<open>reflect.ValueOf(nil)\<close>, and
    \<^verbatim>\<open>Elem()\<close> of a nil pointer.
  \<^item> \<open>VNilPtr c k n\<close> is a nil pointer whose element type has kind \<open>k\<close> and, when
    that is a struct type, \<open>n\<close> fields.
  \<^item> \<open>VInterface x\<close> is a Value of kind Interface (a field, element or entry of
    interface type) holding the dynamic value \<open>x\<close>; \<open>VInterface VInvalid\<close> is the
    nil interface.
  \<^item> \<open>VMap c kt es\<close> is a map with the key type \<open>kt\<close>; \<open>es\<close> lists its
    entries in the order in which \<^verbatim>\<open>MapKeys\<close> happens to return the keys. A key
    of kind String is the string itself; a key of another kind is only named by the
    string.
  A struct field carries what \<^verbatim>\<open>reflect.StructField\<close> and
  \<^verbatim>\<open>Tag.Get\<close> give for it; an absent tag is the empty string.
\<close>

datatype gvalue =
    VInvalid
  | VBase capability kind base
  | VPtr capability gvalue
  | VNilPtr capability kind nat
  | VInterface gvalue
  | VStruct capability "field list"
  | VSlice capability "gvalue list"
  | VMap capability keytype "(string \<times> gvalue) list"
and field =
    Field (Name: string) (Anonymous: bool) (Exported: bool)
          (json: string) (groups: string) (since: string) (until: string)
          (Val: gvalue)

fun Kind :: "gvalue \<Rightarrow> kind" where
  "Kind VInvalid = Invalid"
| "Kind (VBase c k b) = k"
| "Kind (VPtr c x) = Ptr"
| "Kind (VNilPtr c k n) = Ptr"
| "Kind (VInterface x) = Interface"
| "Kind (VStruct c fs) = Struct"
| "Kind (VSlice c xs) = Slice"
| "Kind (VMap c k es) = Map"

fun IsValid :: "gvalue \<Rightarrow> bool" where
  "IsValid VInvalid = False"
| "IsValid v = True"

text \<open>\<^verbatim>\<open>v.Elem()\<close> of a pointer.\<close>

fun Elem :: "gvalue \<Rightarrow> gvalue" where
  "Elem (VPtr c x) = x"
| "Elem v = VInvalid"

text \<open>
  \<^verbatim>\<open>reflect.ValueOf(v.Interface())\<close>: the dynamic value that
  \<^verbatim>\<open>v.Interface()\<close> hands out. A Value of kind Interface hands out what it
  holds, every other Value itself.
\<close>

fun Interface_of :: "gvalue \<Rightarrow> gvalue" where
  "Interface_of (VInterface x) = x"
| "Interface_of v = v"

fun capability_of :: "gvalue \<Rightarrow> capability" where
  "capability_of VInvalid = Plain"
| "capability_of (VBase c k b) = c"
| "capability_of (VPtr c x) = c"
| "capability_of (VNilPtr c k n) = c"
| "capability_of (VInterface x) = Plain"
| "capability_of (VStruct c fs) = c"
| "capability_of (VSlice c xs) = c"
| "capability_of (VMap c k es) = c"

subsection \<open>Output, errors, options\<close>

text \<open>
  The \<^verbatim>\<open>interface{}\<close> the walker returns: \<^verbatim>\<open>nil\<close>, a
  \<^verbatim>\<open>map[string]interface{}\<close> (an association list, one entry per key, updated
  as the Go map is), a \<^verbatim>\<open>[]interface{}\<close>, or a Go value handed on as it is.
\<close>

datatype node =
    NilNode
  | MapNode "(string \<times> node) list"
  | SliceNode "node list"
  | Verbatim gvalue

text \<open>
  \<open>MarshalInvalidTypeError\<close> has the fields \<^verbatim>\<open>t\<close> and \<^verbatim>\<open>data\<close>
  of the Go struct. \<open>VersionParseError\<close> is the error of
  \<^verbatim>\<open>version.NewVersion\<close>, with the string that did not parse;
  \<open>MarshallerError\<close> is an error of a value's own \<^verbatim>\<open>Marshal\<close> method.
\<close>

datatype error =
    MarshalInvalidTypeError kind gvalue
  | VersionParseError string
  | MarshallerError string

text \<open>
  The run-time panics of the calls the walker makes: \<^verbatim>\<open>Type\<close>,
  \<^verbatim>\<open>Field\<close> and \<^verbatim>\<open>Interface\<close> on the zero Value, a method of
  \<^verbatim>\<open>*version.Version\<close> on the nil pointer, the type assertion of a map key
  to \<^verbatim>\<open>string\<close>, and whatever a value's own \<^verbatim>\<open>Marshal\<close> method
  raises.
\<close>

datatype panic =
    TypeOnZeroValue | FieldOnZeroValue | InterfaceOnZeroValue
  | NilVersionDereference | KeyNotString | MarshallerPanic string

text \<open>What a call comes to: \<^verbatim>\<open>return v, nil\<close>, \<^verbatim>\<open>return nil, err\<close>, or a panic.\<close>

datatype result = Return node | Error error | Panic panic

text \<open>
  \<^verbatim>\<open>type Options struct\<close>. \<open>'ver\<close> is what a \<^verbatim>\<open>*version.Version\<close>
  denotes; \<open>None\<close> is the nil pointer. The comparison methods of the version library
  (not part of this package) order versions linearly: \<^verbatim>\<open>a.LessThan(b)\<close> is
  \<open>a < b\<close>, \<^verbatim>\<open>a.GreaterThan(b)\<close> is \<open>a > b\<close>, and both read their
  receiver, so they panic on a nil one. The pointer to the options themselves is taken
  not to be nil.
\<close>

record 'ver Options =
  Groups :: "string list"
  ApiVersion :: "'ver option"
  OutputFieldsWithNoGroup :: bool
  InheritGroups :: bool

text \<open>
  What the walker calls outside the package: \<^verbatim>\<open>version.NewVersion\<close>
  (\<open>None\<close> when it returns an error) and the \<^verbatim>\<open>Marshal\<close> method of a value
  that implements \<^verbatim>\<open>Marshaller\<close>.
\<close>

record 'ver extern =
  NewVersion :: "string \<Rightarrow> 'ver option"
  Marshal_method :: "gvalue \<Rightarrow> 'ver Options \<Rightarrow> result"

subsection \<open>Tags\<close>

text \<open>\<^verbatim>\<open>strings.Split(s, ",")\<close>: the pieces between the commas, one more than there are commas.\<close>

fun splitAcc :: "string \<Rightarrow> string \<Rightarrow> string list" where
  "splitAcc cur [] = [rev cur]"
| "splitAcc cur (c # cs) =
     (if c = CHR '','' then rev cur # splitAcc [] cs else splitAcc (c # cur) cs)"

definition Split :: "string \<Rightarrow> string list" where
  "Split s = splitAcc [] s"

text \<open>
  Modelled from the spec: \<^verbatim>\<open>parseTag\<close> and the \<^verbatim>\<open>Contains\<close> method of the
  options it returns are not among the source files. The naming tag holds the output
  name, then, after a comma, the modifiers, separated by commas.
\<close>

definition parseTag :: "string \<Rightarrow> string \<times> string" where
  "parseTag tag =
     (takeWhile (\<lambda>c. c \<noteq> CHR '','') tag, drop 1 (dropWhile (\<lambda>c. c \<noteq> CHR '','') tag))"

definition Contains :: "string \<Rightarrow> string \<Rightarrow> bool" where
  "Contains opts optionName = (opts \<noteq> [] \<and> optionName \<in> set (Split opts))"

text \<open>
  Modelled from the spec: \<^verbatim>\<open>isEmptyValue\<close> is not among the source files. A value
  is empty when it is the zero or empty value for its type: an empty sequence, mapping or
  string, a zero number, false, a nil reference.
\<close>

fun isEmptyValue :: "gvalue \<Rightarrow> bool" where
  "isEmptyValue (VBase c k (BoolVal b)) = (\<not> b)"
| "isEmptyValue (VBase c k (NumVal i)) = (i = 0)"
| "isEmptyValue (VBase c k (StringVal s)) = (s = [])"
| "isEmptyValue (VBase c k (ArrayVal n)) = (n = 0)"
| "isEmptyValue (VBase c k OtherVal) = False"
| "isEmptyValue (VNilPtr c k n) = True"
| "isEmptyValue (VInterface x) = (\<not> IsValid x)"
| "isEmptyValue (VSlice c xs) = (xs = [])"
| "isEmptyValue (VMap c k es) = (es = [])"
| "isEmptyValue v = False"

subsection \<open>The visibility checks of marshalObject\<close>

text \<open>Lines 119 to 134 of the walker: the three locals of the group check, one definition each.\<close>

definition checkGroups :: "'ver Options \<Rightarrow> groupSet \<Rightarrow> bool" where
  "checkGroups options parents =
     (length (Groups options) > 0 \<or> (InheritGroups options \<and> len parents > 0)
      \<or> OutputFieldsWithNoGroup options)"

text \<open>
  \<^verbatim>\<open>groupNames\<close> is declared nil and assigned only inside
  \<^verbatim>\<open>if checkGroups\<close>, and only when the tag is not empty.
\<close>

definition groupNames :: "'ver Options \<Rightarrow> groupSet \<Rightarrow> field \<Rightarrow> string list" where
  "groupNames options parents f =
     (if checkGroups options parents \<and> groups f \<noteq> [] then Split (groups f) else [])"

definition shouldShowFromGroup ::
  "'ver Options \<Rightarrow> groupSet \<Rightarrow> groupSet \<Rightarrow> bool \<Rightarrow> bool \<Rightarrow> field \<Rightarrow> bool" where
  "shouldShowFromGroup options groupsSet parents embeddedParents isEmbeddedField f =
     (if checkGroups options parents then
        (let names = groupNames options parents f;
             hasExactMatch = containsAny groupsSet names;
             hasParentMatch =
               (if InheritGroups options then containsAny parents (Groups options)
                else if embeddedParents \<and> length names = 0
                  then containsAny parents (Groups options)
                else False);
             hasNoGroup = (length names = 0)
         in hasExactMatch \<or> hasParentMatch
            \<or> (hasNoGroup \<and> OutputFieldsWithNoGroup options) \<or> isEmbeddedField)
      else True)"

text \<open>
  Lines 136 to 145 and 147 to 156: \<open>Inl\<close> is the way out of the call (the parse
  error, or the panic of the comparison on a nil \<^verbatim>\<open>ApiVersion\<close>), \<open>Inr\<close> the
  value of the local.
\<close>

definition shouldShowFromSince ::
  "('ver::linorder) extern \<Rightarrow> 'ver Options \<Rightarrow> field \<Rightarrow> result + bool" where
  "shouldShowFromSince ext options f =
     (if since f \<noteq> [] then
        (case NewVersion ext (since f) of
           None \<Rightarrow> Inl (Error (VersionParseError (since f)))
         | Some sinceVersion \<Rightarrow>
             (case ApiVersion options of
                None \<Rightarrow> Inl (Panic NilVersionDereference)
              | Some v \<Rightarrow> Inr (\<not> v < sinceVersion)))
      else Inr True)"

definition shouldShowFromUntil ::
  "('ver::linorder) extern \<Rightarrow> 'ver Options \<Rightarrow> field \<Rightarrow> result + bool" where
  "shouldShowFromUntil ext options f =
     (if until f \<noteq> [] then
        (case NewVersion ext (until f) of
           None \<Rightarrow> Inl (Error (VersionParseError (until f)))
         | Some untilVersion \<Rightarrow>
             (case ApiVersion options of
                None \<Rightarrow> Inl (Panic NilVersionDereference)
              | Some v \<Rightarrow> Inr (\<not> v > untilVersion)))
      else Inr True)"

text \<open>Lines 91 to 96: the output key.\<close>

definition jsonTag :: "field \<Rightarrow> string" where
  "jsonTag f = (if fst (parseTag (json f)) = [] then Name f else fst (parseTag (json f)))"

text \<open>Lines 98 to 107: the three \<^verbatim>\<open>continue\<close>s.\<close>

definition skipped :: "field \<Rightarrow> bool" where
  "skipped f =
     (jsonTag f = ''-''
      \<or> (Contains (snd (parseTag (json f))) ''omitempty'' \<and> isEmptyValue (Val f))
      \<or> (\<not> IsValid (Val f) \<or> \<not> Exported f))"

text \<open>Lines 112 to 117.\<close>

definition fieldVal :: "field \<Rightarrow> gvalue" where
  "fieldVal f = (if Kind (Val f) = Ptr then Elem (Val f) else Val f)"

definition isEmbeddedField :: "field \<Rightarrow> bool" where
  "isEmbeddedField f = (Anonymous f \<and> Kind (fieldVal f) = Struct)"

text \<open>Lines 158 to 160 and 162 to 164, around the recursive call.\<close>

definition pushParents :: "'ver Options \<Rightarrow> field \<Rightarrow> string list \<Rightarrow> groupSet \<Rightarrow> groupSet" where
  "pushParents options f names parents =
     (if InheritGroups options \<or> isEmbeddedField f then incrementGroups parents names
      else parents)"

definition popParents :: "'ver Options \<Rightarrow> field \<Rightarrow> string list \<Rightarrow> groupSet \<Rightarrow> groupSet" where
  "popParents options f names parents =
     (if InheritGroups options \<or> isEmbeddedField f then decrementGroups parents names
      else parents)"

text \<open>
  Lines 169 to 176: the type assertion to \<^verbatim>\<open>map[string]interface{}\<close> holds for a
  \<open>MapNode\<close>; ranging over the nested map and assigning writes each of its entries.
\<close>

definition store :: "bool \<Rightarrow> string \<Rightarrow> node \<Rightarrow> (string \<times> node) list \<Rightarrow> (string \<times> node) list" where
  "store embedded key v dest =
     (case v of
        MapNode nestedVal \<Rightarrow>
          (if embedded then fold (\<lambda>(k, w). AList.update k w) nestedVal dest
           else AList.update key v dest)
      | _ \<Rightarrow> AList.update key v dest)"

text \<open>Measures for the termination of the walker.\<close>

lemma size_Elem_le: "size (Elem v) \<le> size v"
  by (cases v) auto

lemma size_deref_le: "(if Kind v = Ptr then Elem v else v) = w \<Longrightarrow> size w \<le> size v"
  using size_Elem_le [of v] by (auto split: if_splits)

subsection \<open>The walker\<close>

text \<open>
  \<^verbatim>\<open>marshalObject\<close> and \<^verbatim>\<open>marshalValue\<close> with their three loops:
  \<open>marshalFields\<close> is the loop over the fields of a struct (lines 87 to 180),
  \<open>marshalSlice\<close> the loop over the elements of a slice (lines 217 to 224) and
  \<open>marshalMap\<close> the loop over the keys of a map (lines 235 to 242, with the key
  type of the map, which line 240 asks for), each with the \<^verbatim>\<open>dest\<close> it builds
  as an argument. \<^verbatim>\<open>groups\<close> is only read.
  \<^verbatim>\<open>parents\<close> is one Go map that every call writes to, so each function takes it
  and returns it, next to its result; after a panic it is the map as the panic left it.

  Every Value that reaches \<^verbatim>\<open>marshalValue\<close> comes from
  \<^verbatim>\<open>reflect.ValueOf\<close> through exported fields, elements and entries, so
  \<^verbatim>\<open>CanInterface\<close> holds for it and line 188 is the test of \<^verbatim>\<open>IsValid\<close>.
\<close>

function (sequential)
  marshalObject :: "('ver::linorder) extern \<Rightarrow> 'ver Options \<Rightarrow> gvalue \<Rightarrow> groupSet \<Rightarrow> groupSet \<Rightarrow> bool \<Rightarrow> result \<times> groupSet"
and marshalFields :: "'ver extern \<Rightarrow> 'ver Options \<Rightarrow> groupSet \<Rightarrow> bool \<Rightarrow> field list \<Rightarrow> (string \<times> node) list \<Rightarrow> groupSet \<Rightarrow> result \<times> groupSet"
and marshalValue :: "'ver extern \<Rightarrow> 'ver Options \<Rightarrow> gvalue \<Rightarrow> groupSet \<Rightarrow> groupSet \<Rightarrow> bool \<Rightarrow> result \<times> groupSet"
and marshalSlice :: "'ver extern \<Rightarrow> 'ver Options \<Rightarrow> groupSet \<Rightarrow> bool \<Rightarrow> gvalue list \<Rightarrow> node list \<Rightarrow> groupSet \<Rightarrow> result \<times> groupSet"
and marshalMap :: "'ver extern \<Rightarrow> 'ver Options \<Rightarrow> groupSet \<Rightarrow> bool \<Rightarrow> keytype \<Rightarrow> (string \<times> gvalue) list \<Rightarrow> (string \<times> node) list \<Rightarrow> groupSet \<Rightarrow> result \<times> groupSet"
where
  "marshalObject ext options data groupsSet parents embeddedParents =
     (case data of
        VInvalid \<Rightarrow> (Panic TypeOnZeroValue, parents)
      | VStruct c fs \<Rightarrow> marshalFields ext options groupsSet embeddedParents fs [] parents
      | VPtr c x \<Rightarrow>
          (case x of
             VStruct c' fs \<Rightarrow> marshalFields ext options groupsSet embeddedParents fs [] parents
           | _ \<Rightarrow> marshalValue ext options x groupsSet parents False)
      | VNilPtr c k n \<Rightarrow>
          (if k \<noteq> Struct then marshalValue ext options VInvalid groupsSet parents False
           else if n = 0 then (Return (MapNode []), parents)
           else (Panic FieldOnZeroValue, parents))
      | _ \<Rightarrow> marshalValue ext options data groupsSet parents False)"
| "marshalFields ext options groupsSet embeddedParents [] dest parents =
     (Return (MapNode dest), parents)"
| "marshalFields ext options groupsSet embeddedParents (f # fs) dest parents =
     (if skipped f then marshalFields ext options groupsSet embeddedParents fs dest parents
      else
        (case shouldShowFromSince ext options f of
           Inl r \<Rightarrow> (r, parents)
         | Inr fromSince \<Rightarrow>
        (case shouldShowFromUntil ext options f of
           Inl r \<Rightarrow> (r, parents)
         | Inr fromUntil \<Rightarrow>
        (case marshalValue ext options (fieldVal f) groupsSet
                (pushParents options f (groupNames options parents f) parents)
                (isEmbeddedField f) of
           (Panic p, parents') \<Rightarrow> (Panic p, parents')
         | (Error err, parents') \<Rightarrow>
             (Error err, popParents options f (groupNames options parents f) parents')
         | (Return v, parents') \<Rightarrow>
             marshalFields ext options groupsSet embeddedParents fs
               (if shouldShowFromGroup options groupsSet parents embeddedParents (isEmbeddedField f) f
                   \<and> fromSince \<and> fromUntil
                then store (isEmbeddedField f) (jsonTag f) v dest else dest)
               (popParents options f (groupNames options parents f) parents')))))"
| "marshalValue ext options v groupsSet parents embeddedParents =
     (if \<not> IsValid v then (Return NilNode, parents)
      else if capability_of (Interface_of v) = SelfMarshalling
        then (Marshal_method ext (Interface_of v) options, parents)
      else if capability_of (Interface_of v) = SelfDescribing
        then (Return (Verbatim (Interface_of v)), parents)
      else
        (case (if Kind v = Ptr then Elem v else v) of
           VInvalid \<Rightarrow> (Panic InterfaceOnZeroValue, parents)
         | VInterface x \<Rightarrow> marshalObject ext options x groupsSet parents embeddedParents
         | VStruct c fs \<Rightarrow> marshalObject ext options (VStruct c fs) groupsSet parents embeddedParents
         | VSlice c xs \<Rightarrow> marshalSlice ext options groupsSet embeddedParents xs [] parents
         | VMap c kt es \<Rightarrow>
             (if length es = 0 then (Return NilNode, parents)
              else if key_kind kt \<noteq> String
                then (Error (MarshalInvalidTypeError (key_kind kt) (VMap c kt es)), parents)
              else marshalMap ext options groupsSet embeddedParents kt es [] parents)
         | w \<Rightarrow> (Return (Verbatim w), parents)))"
| "marshalSlice ext options groupsSet embeddedParents [] dest parents =
     (Return (SliceNode dest), parents)"
| "marshalSlice ext options groupsSet embeddedParents (x # xs) dest parents =
     (case marshalValue ext options x groupsSet parents embeddedParents of
        (Return d, parents') \<Rightarrow>
          marshalSlice ext options groupsSet embeddedParents xs (dest @ [d]) parents'
      | (r, parents') \<Rightarrow> (r, parents'))"
| "marshalMap ext options groupsSet embeddedParents kt [] dest parents =
     (Return (MapNode dest), parents)"
| "marshalMap ext options groupsSet embeddedParents kt ((key, x) # es) dest parents =
     (case marshalValue ext options x groupsSet parents embeddedParents of
        (Return d, parents') \<Rightarrow>
          (if kt = StringKey
           then marshalMap ext options groupsSet embeddedParents kt es
                  (AList.update key d dest) parents'
           else (Panic KeyNotString, parents'))
      | (r, parents') \<Rightarrow> (r, parents'))"
  by pat_completeness auto

termination
  apply (relation "measure (\<lambda>a. case a of
      Inl (Inl (ext, options, data, r)) \<Rightarrow> 3 * size data + (case data of VStruct c fs \<Rightarrow> 0 | _ \<Rightarrow> 2)
    | Inl (Inr (ext, options, g, e, fs, r)) \<Rightarrow> 3 * size_list size fs
    | Inr (Inl (ext, options, v, r)) \<Rightarrow> 3 * size v + 1
    | Inr (Inr (Inl (ext, options, g, e, xs, r))) \<Rightarrow> 3 * size_list size xs
    | Inr (Inr (Inr (ext, options, g, e, kt, es, r))) \<Rightarrow>
        3 * size_list (size_prod (\<lambda>_. 0) size) es)")
      apply simp_all
  subgoal for ext options f fs
    using size_Elem_le [of "Val f"] by (cases f) (simp add: fieldVal_def)
  subgoal for v x
    using size_deref_le [of v "VInterface x"] by (cases x) simp_all
  subgoal for v c fs
    using size_deref_le [of v "VStruct c fs"] by simp
  subgoal for v c xs
    using size_deref_le [of v "VSlice c xs"] by simp
  subgoal for v c kt es
    using size_deref_le [of v "VMap c kt es"] by simp
  done

declare marshalObject.simps [simp del] marshalValue.simps [simp del]

text \<open>\<^verbatim>\<open>Marshal\<close>: both groupSets start empty; the result is what the caller sees.\<close>

definition Marshal :: "('ver::linorder) extern \<Rightarrow> 'ver Options \<Rightarrow> gvalue \<Rightarrow> result" where
  "Marshal ext options data =
     fst (marshalObject ext options data (incrementGroups [] (Groups options)) [] False)"

subsection \<open>The spec's words, and values to run the walker on\<close>

text \<open>
  The declared groups of a field as the spec has them: the names of its
  \<^verbatim>\<open>groups\<close> tag, separated by commas, none when the tag is absent.
\<close>

definition declaredGroups :: "field \<Rightarrow> string list" where
  "declaredGroups f = (if groups f = [] then [] else Split (groups f))"

text \<open>
  A version library that knows the versions 1, 2 and 3, a \<^verbatim>\<open>Marshal\<close> method that
  returns an error, and options that ask for the group \<^verbatim>\<open>admin\<close> at version 2.
\<close>

definition exampleExtern :: "nat extern" where
  "exampleExtern =
     \<lparr>NewVersion = map_of [(''1'', 1), (''2'', 2), (''3'', 3)],
      Marshal_method = (\<lambda>v options. Error (MarshallerError ''no''))\<rparr>"

definition exampleOptions :: "nat Options" where
  "exampleOptions =
     \<lparr>Groups = [''admin''], ApiVersion = Some 2,
      OutputFieldsWithNoGroup = False, InheritGroups = False\<rparr>"

definition text_of :: "string \<Rightarrow> gvalue" where
  "text_of s = VBase Plain String (StringVal s)"

text \<open>
  Fields to run the loop on: a field hidden by its group and by its \<^verbatim>\<open>since\<close> tag
  whose value is a map with integer keys; an embedded struct; two fields with a given
  \<^verbatim>\<open>since\<close> tag.
\<close>

definition hiddenBadMap :: field where
  "hiddenBadMap = Field ''Secret'' False True [] ''dev'' ''3'' []
     (VMap Plain (OtherKey Int_kind) [(''7'', text_of ''x'')])"

definition embeddedExample :: field where
  "embeddedExample = Field ''Inner'' True True [] [] [] []
     (VStruct Plain [Field ''X'' False True [] ''admin'' [] [] (text_of ''deep'')])"

definition sinceExample :: "string \<Rightarrow> field" where
  "sinceExample s = Field ''A'' False True [] ''admin'' s [] (text_of ''x'')"

definition sinceExampleB :: "string \<Rightarrow> field" where
  "sinceExampleB s = Field ''B'' False True [] ''admin'' s [] (text_of ''y'')"

text \<open>The call came back, with a value or with an error: it did not panic.\<close>

definition returns :: "result \<times> groupSet \<Rightarrow> bool" where
  "returns c = (\<forall>p. fst c \<noteq> Panic p)"

text \<open>
  Options that turn on \<^verbatim>\<open>InheritGroups\<close> and activate no group, and a field
  tagged \<^verbatim>\<open>admin\<close> that holds a struct with one untagged field.
\<close>

definition inheritOnly :: "nat Options" where
  "inheritOnly =
     \<lparr>Groups = [], ApiVersion = Some 2, OutputFieldsWithNoGroup = False, InheritGroups = True\<rparr>"

definition adminStruct :: "gvalue \<Rightarrow> field" where
  "adminStruct x = Field ''Inner'' False True [] ''admin'' [] []
     (VStruct Plain [Field ''X'' False True [] [] [] [] x])"

subsection \<open>Two calls on the same input\<close>

text \<open>
  The entries of a \<open>VMap\<close> are listed in the order in which \<^verbatim>\<open>MapKeys\<close> returned
  the keys in one call. Go leaves that order open, so a second call on the same map may
  meet the entries in another order. \<open>same_value x y\<close> says that \<open>x\<close> and \<open>y\<close>
  are one Go value read twice: they agree in everything but the order of the entries of
  their maps, and every map holds each key once.
\<close>

definition same_tags :: "field \<Rightarrow> field \<Rightarrow> bool" where
  "same_tags f f' =
     (Name f = Name f' \<and> Anonymous f = Anonymous f' \<and> Exported f = Exported f'
      \<and> json f = json f' \<and> groups f = groups f' \<and> since f = since f' \<and> until f = until f')"

inductive same_value :: "gvalue \<Rightarrow> gvalue \<Rightarrow> bool" where
  same_Invalid: "same_value VInvalid VInvalid"
| same_Base: "same_value (VBase c k b) (VBase c k b)"
| same_Ptr: "same_value x y \<Longrightarrow> same_value (VPtr c x) (VPtr c y)"
| same_NilPtr: "same_value (VNilPtr c k n) (VNilPtr c k n)"
| same_Interface: "same_value x y \<Longrightarrow> same_value (VInterface x) (VInterface y)"
| same_Struct:
    "list_all2 (\<lambda>f f'. same_tags f f' \<and> same_value (Val f) (Val f')) fs fs' \<Longrightarrow>
     same_value (VStruct c fs) (VStruct c fs')"
| same_Slice: "list_all2 same_value xs ys \<Longrightarrow> same_value (VSlice c xs) (VSlice c ys)"
| same_Map:
    "distinct (map fst es) \<Longrightarrow> distinct (map fst es') \<Longrightarrow>
     \<forall>key. rel_option same_value (map_of es key) (map_of es' key) \<Longrightarrow>
     same_value (VMap c k es) (VMap c k es')"

text \<open>
  Structural equality of output trees: mappings are compared key by key, whatever the
  order of their entries, sequences element by element in order, and a value handed on
  as it is with the value handed on by the other call.
\<close>

inductive same_tree :: "node \<Rightarrow> node \<Rightarrow> bool" where
  same_NilNode: "same_tree NilNode NilNode"
| same_MapNode:
    "distinct (map fst a) \<Longrightarrow> distinct (map fst b) \<Longrightarrow>
     \<forall>key. rel_option same_tree (map_of a key) (map_of b key) \<Longrightarrow>
     same_tree (MapNode a) (MapNode b)"
| same_SliceNode: "list_all2 same_tree xs ys \<Longrightarrow> same_tree (SliceNode xs) (SliceNode ys)"
| same_Verbatim: "same_value x y \<Longrightarrow> same_tree (Verbatim x) (Verbatim y)"

text \<open>Two calls come to the same: both fail, or both return structurally equal trees.\<close>

definition same_outcome :: "result \<Rightarrow> result \<Rightarrow> bool" where
  "same_outcome r r' =
     (case r of
        Return n \<Rightarrow> (case r' of Return m \<Rightarrow> same_tree n m | _ \<Rightarrow> False)
      | _ \<Rightarrow> (case r' of Return m \<Rightarrow> False | _ \<Rightarrow> True))"

text \<open>
  Two calls come to the same result: structurally equal trees, the same error, or the
  same panic. An error that holds a value is the same as one that holds the same value
  read in another order.
\<close>

fun same_error :: "error \<Rightarrow> error \<Rightarrow> bool" where
  "same_error (MarshalInvalidTypeError k d) (MarshalInvalidTypeError k' d') =
     (k = k' \<and> same_value d d')"
| "same_error (VersionParseError s) (VersionParseError t) = (s = t)"
| "same_error (MarshallerError s) (MarshallerError t) = (s = t)"
| "same_error e e' = False"

definition same_result :: "result \<Rightarrow> result \<Rightarrow> bool" where
  "same_result r r' =
     (case r of
        Return n \<Rightarrow> (case r' of Return m \<Rightarrow> same_tree n m | _ \<Rightarrow> False)
      | Error e \<Rightarrow> (case r' of Error e' \<Rightarrow> same_error e e' | _ \<Rightarrow> False)
      | Panic p \<Rightarrow> (case r' of Panic p' \<Rightarrow> p = p' | _ \<Rightarrow> False))"

text \<open>
  The \<^verbatim>\<open>Marshal\<close> methods of the values are code of the caller; they are taken to
  come to the same when called twice on the same value: to the same outcome
  (\<open>faithful\<close>), or to the same result (\<open>exact\<close>).
\<close>

definition faithful :: "'ver extern \<Rightarrow> 'ver Options \<Rightarrow> bool" where
  "faithful ext options =
     (\<forall>v v'. same_value v v' \<longrightarrow>
        same_outcome (Marshal_method ext v options) (Marshal_method ext v' options))"

definition exact :: "'ver extern \<Rightarrow> 'ver Options \<Rightarrow> bool" where
  "exact ext options =
     (\<forall>v v'. same_value v v' \<longrightarrow>
        same_result (Marshal_method ext v options) (Marshal_method ext v' options))"

text \<open>
  What an entry of a map does to the loop of lines 235 to 242 when the loop gets to it:
  the loop ends there with the failure of the entry's value, or, when the value is
  marshalled, with the panic of line 240 if the key type is not \<^verbatim>\<open>string\<close>;
  otherwise it goes on (\<open>None\<close>). Whether the walk of a value fails, and with what,
  depends neither on \<^verbatim>\<open>groups\<close> nor on parents nor on
  \<^verbatim>\<open>embeddedParents\<close> (\<open>walker_failure\<close> below), so the value is walked
  here with empty ones.
\<close>

definition entry_stops ::
  "('ver::linorder) extern \<Rightarrow> 'ver Options \<Rightarrow> keytype \<Rightarrow> gvalue \<Rightarrow> result option" where
  "entry_stops ext options kt x =
     (case fst (marshalValue ext options x [] [] False) of
        Return d \<Rightarrow> if kt = StringKey then None else Some (Panic KeyNotString)
      | r \<Rightarrow> Some r)"

text \<open>
  \<open>stops_agree x\<close>: in every map found in \<open>x\<close>, the entries that end the loop end it
  with one and the same result. It holds in particular when no map in \<open>x\<close> has more than
  one entry that fails and none has a key type of kind String other than
  \<^verbatim>\<open>string\<close>.
\<close>

inductive stops_agree :: "('ver::linorder) extern \<Rightarrow> 'ver Options \<Rightarrow> gvalue \<Rightarrow> bool"
  for ext :: "'ver extern" and options :: "'ver Options" where
  agree_Invalid: "stops_agree ext options VInvalid"
| agree_Base: "stops_agree ext options (VBase c k b)"
| agree_Ptr: "stops_agree ext options x \<Longrightarrow> stops_agree ext options (VPtr c x)"
| agree_NilPtr: "stops_agree ext options (VNilPtr c k n)"
| agree_Interface: "stops_agree ext options x \<Longrightarrow> stops_agree ext options (VInterface x)"
| agree_Struct:
    "\<forall>f\<in>set fs. stops_agree ext options (Val f) \<Longrightarrow> stops_agree ext options (VStruct c fs)"
| agree_Slice:
    "\<forall>x\<in>set xs. stops_agree ext options x \<Longrightarrow> stops_agree ext options (VSlice c xs)"
| agree_Map:
    "\<forall>e\<in>set es. stops_agree ext options (snd e) \<Longrightarrow>
     \<forall>e\<in>set es. \<forall>e'\<in>set es. \<forall>r r'.
        entry_stops ext options kt (snd e) = Some r \<longrightarrow>
        entry_stops ext options kt (snd e') = Some r' \<longrightarrow> r = r' \<Longrightarrow>
     stops_agree ext options (VMap c kt es)"

text \<open>
  A keyed mapping with two entries, read in the one order and in the other. The entries
  are structs of two types, each with one field that has a since tag, so the element type
  of the map is \<^verbatim>\<open>interface{}\<close>.
\<close>

definition twoEntries :: "keytype \<Rightarrow> string \<Rightarrow> string \<Rightarrow> gvalue" where
  "twoEntries kt s t =
     VMap Plain kt
       [(''a'', VInterface (VStruct Plain [sinceExample s])),
        (''b'', VInterface (VStruct Plain [sinceExampleB t]))]"

definition twoEntriesSwapped :: "keytype \<Rightarrow> string \<Rightarrow> string \<Rightarrow> gvalue" where
  "twoEntriesSwapped kt s t =
     VMap Plain kt
       [(''b'', VInterface (VStruct Plain [sinceExampleB t])),
        (''a'', VInterface (VStruct Plain [sinceExample s]))]"

subsection \<open>Where the walk goes\<close>

text \<open>
  A field has a version tag that does not parse. The walk meets such a field: it sits
  in a struct that \<^verbatim>\<open>marshalObject\<close> ranges over, is not skipped, and the struct is
  the input, or is found under fields that are not skipped, elements of slices and
  entries of maps with string keys (the first entry only when the key type is a defined
  string type: the loop does not get further), through at most one pointer at each step,
  in values whose types have none of the methods that \<^verbatim>\<open>marshalValue\<close> asks for.
\<close>

definition unparsed_tag :: "'ver extern \<Rightarrow> field \<Rightarrow> bool" where
  "unparsed_tag ext f =
     ((since f \<noteq> [] \<and> NewVersion ext (since f) = None)
      \<or> (until f \<noteq> [] \<and> NewVersion ext (until f) = None))"

inductive meets_object :: "'ver extern \<Rightarrow> gvalue \<Rightarrow> bool"
  and meets_fields :: "'ver extern \<Rightarrow> field list \<Rightarrow> bool"
  and meets_value :: "'ver extern \<Rightarrow> gvalue \<Rightarrow> bool"
  for ext :: "'ver extern" where
  object_struct: "meets_fields ext fs \<Longrightarrow> meets_object ext (VStruct c fs)"
| object_pointer_struct: "meets_fields ext fs \<Longrightarrow> meets_object ext (VPtr c (VStruct c' fs))"
| object_pointer: "Kind x \<noteq> Struct \<Longrightarrow> meets_value ext x \<Longrightarrow> meets_object ext (VPtr c x)"
| object_other:
    "Kind v \<noteq> Struct \<Longrightarrow> Kind v \<noteq> Ptr \<Longrightarrow> meets_value ext v \<Longrightarrow> meets_object ext v"
| fields_tag: "\<not> skipped f \<Longrightarrow> unparsed_tag ext f \<Longrightarrow> meets_fields ext (f # fs)"
| fields_value: "\<not> skipped f \<Longrightarrow> meets_value ext (fieldVal f) \<Longrightarrow> meets_fields ext (f # fs)"
| fields_later: "meets_fields ext fs \<Longrightarrow> meets_fields ext (f # fs)"
| value_interface:
    "IsValid v \<Longrightarrow> capability_of (Interface_of v) = Plain \<Longrightarrow>
     (if Kind v = Ptr then Elem v else v) = VInterface x \<Longrightarrow> meets_object ext x \<Longrightarrow>
     meets_value ext v"
| value_struct:
    "IsValid v \<Longrightarrow> capability_of (Interface_of v) = Plain \<Longrightarrow>
     (if Kind v = Ptr then Elem v else v) = VStruct c fs \<Longrightarrow> meets_fields ext fs \<Longrightarrow>
     meets_value ext v"
| value_slice:
    "IsValid v \<Longrightarrow> capability_of (Interface_of v) = Plain \<Longrightarrow>
     (if Kind v = Ptr then Elem v else v) = VSlice c xs \<Longrightarrow> x \<in> set xs \<Longrightarrow>
     meets_value ext x \<Longrightarrow> meets_value ext v"
| value_map:
    "IsValid v \<Longrightarrow> capability_of (Interface_of v) = Plain \<Longrightarrow>
     (if Kind v = Ptr then Elem v else v) = VMap c StringKey es \<Longrightarrow> (key, x) \<in> set es \<Longrightarrow>
     meets_value ext x \<Longrightarrow> meets_value ext v"
| value_map_first:
    "IsValid v \<Longrightarrow> capability_of (Interface_of v) = Plain \<Longrightarrow>
     (if Kind v = Ptr then Elem v else v) = VMap c kt ((key, x) # es) \<Longrightarrow>
     key_kind kt = String \<Longrightarrow> meets_value ext x \<Longrightarrow> meets_value ext v"

text \<open>The failing field of the example, two levels down in the input.\<close>

definition nestedBadTag :: gvalue where
  "nestedBadTag =
     VStruct Plain [Field ''Outer'' False True [] ''admin'' [] []
                      (VSlice Plain [VStruct Plain [sinceExample ''soon'', sinceExampleB ''1'']]),
                    sinceExample ''2'']"

subsection \<open>The calls of a walk\<close>

text \<open>
  One call of one of the five functions of the walker, with the arguments that change
  from call to call: the value or what is left of the fields, elements or entries, the
  \<^verbatim>\<open>dest\<close> built so far, parents, and \<^verbatim>\<open>embeddedParents\<close>. The options
  and \<^verbatim>\<open>groups\<close> are those of the call of \<^verbatim>\<open>Marshal\<close>. A loop with a
  shorter list is the same loop some iterations later.
\<close>

datatype call =
    ObjectCall gvalue groupSet bool
  | FieldsLoop bool "field list" "(string \<times> node) list" groupSet
  | ValueCall gvalue groupSet bool
  | SliceLoop bool "gvalue list" "node list" groupSet
  | MapLoop bool keytype "(string \<times> gvalue) list" "(string \<times> node) list" groupSet

fun outcome ::
  "('ver::linorder) extern \<Rightarrow> 'ver Options \<Rightarrow> groupSet \<Rightarrow> call \<Rightarrow> result \<times> groupSet" where
  "outcome ext options groupsSet (ObjectCall data parents embeddedParents) =
     marshalObject ext options data groupsSet parents embeddedParents"
| "outcome ext options groupsSet (FieldsLoop embeddedParents fs dest parents) =
     marshalFields ext options groupsSet embeddedParents fs dest parents"
| "outcome ext options groupsSet (ValueCall v parents embeddedParents) =
     marshalValue ext options v groupsSet parents embeddedParents"
| "outcome ext options groupsSet (SliceLoop embeddedParents xs dest parents) =
     marshalSlice ext options groupsSet embeddedParents xs dest parents"
| "outcome ext options groupsSet (MapLoop embeddedParents kt es dest parents) =
     marshalMap ext options groupsSet embeddedParents kt es dest parents"

text \<open>
  \<open>invokes c c'\<close>: while \<open>c\<close> runs, it calls \<open>c'\<close>, or, for a loop, it goes on as
  \<open>c'\<close>. One rule for each call in the walker, under the tests that lead to it: a
  loop calls \<^verbatim>\<open>marshalValue\<close> on the field, element or entry in front, and goes on
  with the rest once that call has returned a value (the field loop also past a field it
  skips, the map loop only if the key type is \<^verbatim>\<open>string\<close>).
\<close>

inductive invokes ::
  "('ver::linorder) extern \<Rightarrow> 'ver Options \<Rightarrow> groupSet \<Rightarrow> call \<Rightarrow> call \<Rightarrow> bool"
  for ext :: "'ver extern" and options :: "'ver Options" and groupsSet :: groupSet where
  call_struct:
    "invokes ext options groupsSet (ObjectCall (VStruct c fs) parents embeddedParents)
       (FieldsLoop embeddedParents fs [] parents)"
| call_pointer_struct:
    "invokes ext options groupsSet (ObjectCall (VPtr c (VStruct c' fs)) parents embeddedParents)
       (FieldsLoop embeddedParents fs [] parents)"
| call_pointer:
    "Kind x \<noteq> Struct \<Longrightarrow>
     invokes ext options groupsSet (ObjectCall (VPtr c x) parents embeddedParents)
       (ValueCall x parents False)"
| call_nil_pointer:
    "k \<noteq> Struct \<Longrightarrow>
     invokes ext options groupsSet (ObjectCall (VNilPtr c k n) parents embeddedParents)
       (ValueCall VInvalid parents False)"
| call_other:
    "Kind data \<noteq> Invalid \<Longrightarrow> Kind data \<noteq> Struct \<Longrightarrow> Kind data \<noteq> Ptr \<Longrightarrow>
     invokes ext options groupsSet (ObjectCall data parents embeddedParents)
       (ValueCall data parents False)"
| loop_skip:
    "skipped f \<Longrightarrow>
     invokes ext options groupsSet (FieldsLoop embeddedParents (f # fs) dest parents)
       (FieldsLoop embeddedParents fs dest parents)"
| loop_value:
    "\<not> skipped f \<Longrightarrow> shouldShowFromSince ext options f = Inr fromSince \<Longrightarrow>
     shouldShowFromUntil ext options f = Inr fromUntil \<Longrightarrow>
     invokes ext options groupsSet (FieldsLoop embeddedParents (f # fs) dest parents)
       (ValueCall (fieldVal f) (pushParents options f (groupNames options parents f) parents)
          (isEmbeddedField f))"
| loop_next:
    "\<not> skipped f \<Longrightarrow> shouldShowFromSince ext options f = Inr fromSince \<Longrightarrow>
     shouldShowFromUntil ext options f = Inr fromUntil \<Longrightarrow>
     marshalValue ext options (fieldVal f) groupsSet
       (pushParents options f (groupNames options parents f) parents) (isEmbeddedField f)
       = (Return v, parents') \<Longrightarrow>
     invokes ext options groupsSet (FieldsLoop embeddedParents (f # fs) dest parents)
       (FieldsLoop embeddedParents fs
          (if shouldShowFromGroup options groupsSet parents embeddedParents (isEmbeddedField f) f
              \<and> fromSince \<and> fromUntil
           then store (isEmbeddedField f) (jsonTag f) v dest else dest)
          (popParents options f (groupNames options parents f) parents'))"
| walk_interface:
    "IsValid v \<Longrightarrow> capability_of (Interface_of v) = Plain \<Longrightarrow>
     (if Kind v = Ptr then Elem v else v) = VInterface x \<Longrightarrow>
     invokes ext options groupsSet (ValueCall v parents embeddedParents)
       (ObjectCall x parents embeddedParents)"
| walk_struct:
    "IsValid v \<Longrightarrow> capability_of (Interface_of v) = Plain \<Longrightarrow>
     (if Kind v = Ptr then Elem v else v) = VStruct c fs \<Longrightarrow>
     invokes ext options groupsSet (ValueCall v parents embeddedParents)
       (ObjectCall (VStruct c fs) parents embeddedParents)"
| walk_slice:
    "IsValid v \<Longrightarrow> capability_of (Interface_of v) = Plain \<Longrightarrow>
     (if Kind v = Ptr then Elem v else v) = VSlice c xs \<Longrightarrow>
     invokes ext options groupsSet (ValueCall v parents embeddedParents)
       (SliceLoop embeddedParents xs [] parents)"
| walk_map:
    "IsValid v \<Longrightarrow> capability_of (Interface_of v) = Plain \<Longrightarrow>
     (if Kind v = Ptr then Elem v else v) = VMap c kt es \<Longrightarrow> es \<noteq> [] \<Longrightarrow>
     key_kind kt = String \<Longrightarrow>
     invokes ext options groupsSet (ValueCall v parents embeddedParents)
       (MapLoop embeddedParents kt es [] parents)"
| slice_element:
    "invokes ext options groupsSet (SliceLoop embeddedParents (x # xs) dest parents)
       (ValueCall x parents embeddedParents)"
| slice_next:
    "marshalValue ext options x groupsSet parents embeddedParents = (Return d, parents') \<Longrightarrow>
     invokes ext options groupsSet (SliceLoop embeddedParents (x # xs) dest parents)
       (SliceLoop embeddedParents xs (dest @ [d]) parents')"
| map_entry:
    "invokes ext options groupsSet (MapLoop embeddedParents kt ((key, x) # es) dest parents)
       (ValueCall x parents embeddedParents)"
| map_next:
    "marshalValue ext options x groupsSet parents embeddedParents = (Return d, parents') \<Longrightarrow>
     invokes ext options groupsSet (MapLoop embeddedParents StringKey ((key, x) # es) dest parents)
       (MapLoop embeddedParents StringKey es (AList.update key d dest) parents')"

text \<open>The calls that a call of \<^verbatim>\<open>Marshal\<close> on \<open>data\<close> comes to make.\<close>

definition reached ::
  "('ver::linorder) extern \<Rightarrow> 'ver Options \<Rightarrow> gvalue \<Rightarrow> call \<Rightarrow> bool" where
  "reached ext options data c =
     (invokes ext options (incrementGroups [] (Groups options)))\<^sup>*\<^sup>*
       (ObjectCall data [] False) c"

text \<open>
  A field hidden by its group and by its \<^verbatim>\<open>since\<close> tag with a value that
  marshals, and the field \<open>hiddenBadMap\<close> in a struct in a slice in a field of the
  input, after a field that is shown.
\<close>

definition hiddenText :: field where
  "hiddenText = Field ''Secret'' False True [] ''dev'' ''3'' [] (text_of ''s'')"

definition nestedHiddenMap :: gvalue where
  "nestedHiddenMap =
     VStruct Plain [Field ''Outer'' False True [] ''admin'' [] []
                      (VSlice Plain [VStruct Plain [sinceExample ''1'', hiddenBadMap]])]"

subsection \<open>Notions for the proofs\<close>

text \<open>
  \<open>steady\<close>: what a call that returns leaves of parents. \<open>alike\<close>: two parents maps
  that no call can tell apart. \<open>dispatch\<close>: lines 211 to 244 of
  \<^verbatim>\<open>marshalValue\<close>, on the value behind the pointer. \<open>failure\<close>: the
  error or panic of a call, none when it returns a value. \<open>stops_at\<close>: what an entry
  does to the loop over a map, in a given state. \<open>related\<close>: the same result when
  \<open>strict\<close>, the same outcome when not.
\<close>

definition steady :: "'ver Options \<Rightarrow> groupSet \<Rightarrow> groupSet \<Rightarrow> bool" where
  "steady options p p' =
     ((\<forall>g. index p' g = index p g) \<and> (p \<noteq> [] \<longrightarrow> p' \<noteq> [])
      \<and> (\<not> checkGroups options p \<longrightarrow> p' = p))"

definition alike :: "'ver Options \<Rightarrow> groupSet \<Rightarrow> groupSet \<Rightarrow> bool" where
  "alike options p q =
     ((\<forall>g. index p g = index q g) \<and> checkGroups options p = checkGroups options q)"

definition dispatch ::
  "('ver::linorder) extern \<Rightarrow> 'ver Options \<Rightarrow> gvalue \<Rightarrow> groupSet \<Rightarrow> groupSet \<Rightarrow> bool
     \<Rightarrow> result \<times> groupSet" where
  "dispatch ext options w groupsSet parents embeddedParents =
     (case w of
        VInvalid \<Rightarrow> (Panic InterfaceOnZeroValue, parents)
      | VInterface x \<Rightarrow> marshalObject ext options x groupsSet parents embeddedParents
      | VStruct c fs \<Rightarrow> marshalObject ext options (VStruct c fs) groupsSet parents embeddedParents
      | VSlice c xs \<Rightarrow> marshalSlice ext options groupsSet embeddedParents xs [] parents
      | VMap c kt es \<Rightarrow>
          (if length es = 0 then (Return NilNode, parents)
           else if key_kind kt \<noteq> String
             then (Error (MarshalInvalidTypeError (key_kind kt) (VMap c kt es)), parents)
           else marshalMap ext options groupsSet embeddedParents kt es [] parents)
      | _ \<Rightarrow> (Return (Verbatim w), parents))"

definition same_dest :: "(string \<times> node) list \<Rightarrow> (string \<times> node) list \<Rightarrow> bool" where
  "same_dest a b =
     (distinct (map fst a) \<and> distinct (map fst b)
      \<and> (\<forall>key. rel_option same_tree (map_of a key) (map_of b key)))"

definition succeeds :: "result \<Rightarrow> bool" where
  "succeeds r = (\<exists>n. r = Return n)"

definition node_of :: "result \<Rightarrow> node" where
  "node_of r = (case r of Return n \<Rightarrow> n | _ \<Rightarrow> NilNode)"

definition failure :: "result \<Rightarrow> result option" where
  "failure r = (case r of Return n \<Rightarrow> None | _ \<Rightarrow> Some r)"

definition stops_at ::
  "('ver::linorder) extern \<Rightarrow> 'ver Options \<Rightarrow> groupSet \<Rightarrow> keytype \<Rightarrow> gvalue \<Rightarrow> groupSet \<Rightarrow> bool
     \<Rightarrow> result option" where
  "stops_at ext options groupsSet kt x parents embeddedParents =
     (case fst (marshalValue ext options x groupsSet parents embeddedParents) of
        Return d \<Rightarrow> if kt = StringKey then None else Some (Panic KeyNotString)
      | r \<Rightarrow> Some r)"

definition related :: "bool \<Rightarrow> result \<Rightarrow> result \<Rightarrow> bool" where
  "related strict r r' = (if strict then same_result r r' else same_outcome r r')"

definition agreeV ::
  "bool \<Rightarrow> ('ver::linorder) extern \<Rightarrow> 'ver Options \<Rightarrow> groupSet \<Rightarrow> gvalue \<Rightarrow> gvalue \<Rightarrow> bool" where
  "agreeV strict ext options groupsSet x y =
     (\<forall>p emb. related strict (fst (marshalValue ext options x groupsSet p emb))
                (fst (marshalValue ext options y groupsSet p emb)))"

definition agree ::
  "bool \<Rightarrow> ('ver::linorder) extern \<Rightarrow> 'ver Options \<Rightarrow> groupSet \<Rightarrow> gvalue \<Rightarrow> gvalue \<Rightarrow> bool" where
  "agree strict ext options groupsSet x y =
     (agreeV strict ext options groupsSet x y
      \<and> agreeV strict ext options groupsSet (Elem x) (Elem y)
      \<and> (\<forall>p emb. related strict (fst (marshalObject ext options x groupsSet p emb))
                (fst (marshalObject ext options y groupsSet p emb)))
      \<and> (\<forall>p emb. related strict (fst (dispatch ext options x groupsSet p emb))
                (fst (dispatch ext options y groupsSet p emb))))"

section \<open>Properties\<close>

subsection \<open>The groupSet\<close>

lemma index_update: "index (AList.update k v s) g = (if g = k then v else index s g)"
  by (simp add: index_def update_conv')

lemma index_incrementGroups:
  "index (incrementGroups s names) g = index s g + int (count_list names g)"
  by (induction names arbitrary: s) (simp_all add: index_update)

lemma index_decrementGroups:
  "index (decrementGroups s names) g = index s g - int (count_list names g)"
  by (induction names arbitrary: s) (simp_all add: index_update)

lemma containsAny_iff: "containsAny s names = (\<exists>g\<in>set names. index s g > 0)"
  by (induction names) (simp_all add: contains_def)

lemma index_Nil: "index [] g = 0"
  by (simp add: index_def)

lemma count_list_pos: "(0 < count_list xs x) = (x \<in> set xs)"
  by (induction xs) auto

lemma seeded_contains:
  "(index (incrementGroups [] names) g > 0) = (g \<in> set names)"
  by (simp add: index_incrementGroups index_Nil count_list_pos)

lemma len_pos_iff: "(len s > 0) = (s \<noteq> [])"
  by (cases s) (auto simp: len_def)

subsection \<open>Visibility from groups\<close>

text \<open>
  C1. In a call of \<^verbatim>\<open>Marshal\<close> the groupSet \<^verbatim>\<open>groups\<close> is the one seeded
  from \<^verbatim>\<open>options.Groups\<close>. For every field, \<^verbatim>\<open>shouldShowFromGroup\<close> is
  evaluated only when the activation list is not empty, or \<^verbatim>\<open>InheritGroups\<close> is
  on and the parents map has a key, or \<^verbatim>\<open>OutputFieldsWithNoGroup\<close> is set. Then
  the field is visible iff one of its declared groups is activated, or
  \<^verbatim>\<open>InheritGroups\<close> is on and an activated group has a positive count in parents,
  or the caller is an embedded context, the field declares no group and an activated
  group has a positive count in parents, or the field declares no group and
  \<^verbatim>\<open>OutputFieldsWithNoGroup\<close> is set, or the field is an embedded struct field.
  When nothing asks for the evaluation the field is visible. (The parents map counts as
  non-empty as soon as it has a key, whatever the count stored under it.)
\<close>

theorem group_visibility:
  "shouldShowFromGroup options (incrementGroups [] (Groups options)) parents
      embeddedParents (isEmbeddedField f) f =
   (if Groups options \<noteq> [] \<or> (InheritGroups options \<and> len parents > 0)
        \<or> OutputFieldsWithNoGroup options
    then set (declaredGroups f) \<inter> set (Groups options) \<noteq> {}
       \<or> (InheritGroups options \<and> (\<exists>g\<in>set (Groups options). index parents g > 0))
       \<or> (embeddedParents \<and> declaredGroups f = []
            \<and> (\<exists>g\<in>set (Groups options). index parents g > 0))
       \<or> (declaredGroups f = [] \<and> OutputFieldsWithNoGroup options)
       \<or> isEmbeddedField f
    else True)"
proof (cases "checkGroups options parents")
  case False
  then show ?thesis
    by (auto simp: shouldShowFromGroup_def checkGroups_def)
next
  case True
  then have names: "groupNames options parents f = declaredGroups f"
    by (simp add: groupNames_def declaredGroups_def)
  have exact: "containsAny (incrementGroups [] (Groups options)) (declaredGroups f)
      = (set (declaredGroups f) \<inter> set (Groups options) \<noteq> {})"
    by (auto simp: containsAny_iff seeded_contains)
  from True have cond: "Groups options \<noteq> [] \<or> (InheritGroups options \<and> len parents > 0)
        \<or> OutputFieldsWithNoGroup options"
    by (simp add: checkGroups_def)
  show ?thesis
    unfolding shouldShowFromGroup_def Let_def names exact
    using True cond by (auto simp: containsAny_iff)
qed

text \<open>
  At the example options: a field tagged \<^verbatim>\<open>dev,admin\<close> is visible, a field tagged
  \<^verbatim>\<open>dev\<close> is not, and it is once no group is activated.
\<close>

theorem group_visibility_witness:
  "shouldShowFromGroup exampleOptions (incrementGroups [] (Groups exampleOptions)) []
      False False (Field ''A'' False True ''a'' ''dev,admin'' [] [] (text_of ''x''))
   \<and> \<not> shouldShowFromGroup exampleOptions (incrementGroups [] (Groups exampleOptions)) []
      False False (Field ''B'' False True ''b'' ''dev'' [] [] (text_of ''y''))
   \<and> shouldShowFromGroup (exampleOptions\<lparr>Groups := []\<rparr>) (incrementGroups [] []) []
      False False (Field ''B'' False True ''b'' ''dev'' [] [] (text_of ''y''))"
  using group_visibility [of exampleOptions "[]" False "Field ''A'' False True ''a'' ''dev,admin'' [] [] (text_of ''x'')"]
    group_visibility [of exampleOptions "[]" False "Field ''B'' False True ''b'' ''dev'' [] [] (text_of ''y'')"]
    group_visibility [of "exampleOptions\<lparr>Groups := []\<rparr>" "[]" False "Field ''B'' False True ''b'' ''dev'' [] [] (text_of ''y'')"]
  by (simp add: exampleOptions_def isEmbeddedField_def fieldVal_def text_of_def declaredGroups_def Split_def len_def)

subsection \<open>One field of the loop\<close>

text \<open>Running the walker on given values unfolds these.\<close>

lemmas walker_defs =
  marshalObject.simps marshalValue.simps Marshal_def skipped_def jsonTag_def parseTag_def
  Contains_def Split_def shouldShowFromSince_def shouldShowFromUntil_def
  shouldShowFromGroup_def fieldVal_def isEmbeddedField_def checkGroups_def groupNames_def
  store_def index_def contains_def len_def pushParents_def popParents_def

lemmas example_defs = exampleExtern_def exampleOptions_def text_of_def

text \<open>
  A field that passes the three \<^verbatim>\<open>continue\<close>s and both version checks: the loop
  recurses into its value between the push and the pop, and goes on from what comes back.
\<close>

lemma marshalFields_step:
  assumes "\<not> skipped f"
    and "shouldShowFromSince ext options f = Inr fromSince"
    and "shouldShowFromUntil ext options f = Inr fromUntil"
  shows "marshalFields ext options groupsSet embeddedParents (f # fs) dest parents =
     (case marshalValue ext options (fieldVal f) groupsSet
             (pushParents options f (groupNames options parents f) parents)
             (isEmbeddedField f) of
        (Panic p, parents') \<Rightarrow> (Panic p, parents')
      | (Error err, parents') \<Rightarrow>
          (Error err, popParents options f (groupNames options parents f) parents')
      | (Return v, parents') \<Rightarrow>
          marshalFields ext options groupsSet embeddedParents fs
            (if shouldShowFromGroup options groupsSet parents embeddedParents (isEmbeddedField f) f
                \<and> fromSince \<and> fromUntil
             then store (isEmbeddedField f) (jsonTag f) v dest else dest)
            (popParents options f (groupNames options parents f) parents'))"
  using assms by simp

text \<open>
  A value of kind Map whose type has none of the methods the walker asks for reaches
  lines 226 to 243 as it is.
\<close>

lemma marshalValue_plain_map:
  "marshalValue ext options (VMap Plain kt es) groupsSet parents embeddedParents =
     (if length es = 0 then (Return NilNode, parents)
      else if key_kind kt \<noteq> String
        then (Error (MarshalInvalidTypeError (key_kind kt) (VMap Plain kt es)), parents)
      else marshalMap ext options groupsSet embeddedParents kt es [] parents)"
  by (simp add: marshalValue.simps)

subsection \<open>Embedded fields\<close>

lemma map_of_fold_update_at:
  "distinct (map fst m) \<Longrightarrow>
   map_of (fold (\<lambda>(k, w). AList.update k w) m dest) x = (map_of dest ++ map_of m) x"
proof (induction m arbitrary: dest)
  case Nil
  then show ?case by simp
next
  case (Cons e m)
  obtain k w where e: "e = (k, w)" by (cases e)
  from Cons.prems e have k: "map_of m k = None" and d: "distinct (map fst m)"
    by (auto simp: map_of_eq_None_iff)
  show ?case
    using Cons.IH [OF d, of "AList.update k w dest"] k e
    by (auto simp: map_add_def update_conv split: option.splits)
qed

lemma map_of_fold_update:
  "distinct (map fst m) \<Longrightarrow>
   map_of (fold (\<lambda>(k, w). AList.update k w) m dest) = map_of dest ++ map_of m"
  by (rule ext) (rule map_of_fold_update_at)

text \<open>
  C4. An embedded field (anonymous, of kind Struct once a pointer is followed) is always
  visible from groups. When it is not skipped, both version checks pass and the walk of
  its value returns \<open>v\<close>, the loop goes on with \<open>store True key v dest\<close>: if \<open>v\<close> is
  a mapping its entries are written into \<open>dest\<close>, over the entries \<open>dest\<close> has
  under the same keys, and no entry is made for the field's own key; if \<open>v\<close> is anything
  else it is stored under the field's key.
\<close>

theorem embedded_field_flattened:
  assumes "isEmbeddedField f"
  shows "shouldShowFromGroup options groupsSet parents embeddedParents (isEmbeddedField f) f
    \<and> (\<not> skipped f \<longrightarrow> shouldShowFromSince ext options f = Inr True \<longrightarrow>
        shouldShowFromUntil ext options f = Inr True \<longrightarrow>
        marshalValue ext options (fieldVal f) groupsSet
          (pushParents options f (groupNames options parents f) parents) True
          = (Return v, parents') \<longrightarrow>
        marshalFields ext options groupsSet embeddedParents (f # fs) dest parents =
        marshalFields ext options groupsSet embeddedParents fs
          (store True (jsonTag f) v dest)
          (popParents options f (groupNames options parents f) parents'))
    \<and> (\<forall>m. v = MapNode m \<longrightarrow> distinct (map fst m) \<longrightarrow>
          map_of (store True (jsonTag f) v dest) = map_of dest ++ map_of m)
    \<and> ((\<forall>m. v \<noteq> MapNode m) \<longrightarrow>
          map_of (store True (jsonTag f) v dest) = (map_of dest)(jsonTag f \<mapsto> v))"
proof (intro conjI impI allI)
  show "shouldShowFromGroup options groupsSet parents embeddedParents (isEmbeddedField f) f"
    using assms by (simp add: shouldShowFromGroup_def Let_def)
next
  assume "\<not> skipped f" "shouldShowFromSince ext options f = Inr True"
    "shouldShowFromUntil ext options f = Inr True"
    and r: "marshalValue ext options (fieldVal f) groupsSet
          (pushParents options f (groupNames options parents f) parents) True
          = (Return v, parents')"
  then show "marshalFields ext options groupsSet embeddedParents (f # fs) dest parents =
        marshalFields ext options groupsSet embeddedParents fs
          (store True (jsonTag f) v dest)
          (popParents options f (groupNames options parents f) parents')"
    using assms r by (simp add: shouldShowFromGroup_def Let_def)
next
  fix m assume "v = MapNode m" "distinct (map fst m)"
  then show "map_of (store True (jsonTag f) v dest) = map_of dest ++ map_of m"
    by (simp add: store_def map_of_fold_update)
next
  assume "\<forall>m. v \<noteq> MapNode m"
  then show "map_of (store True (jsonTag f) v dest) = (map_of dest)(jsonTag f \<mapsto> v)"
    by (cases v) (simp_all add: store_def update_conv')
qed

text \<open>
  The embedded struct of \<open>embeddedExample\<close> has one visible field \<^verbatim>\<open>X\<close>; its entry
  replaces the \<^verbatim>\<open>X\<close> of the output built so far, next to \<^verbatim>\<open>Y\<close>, and there is
  no key \<^verbatim>\<open>Inner\<close>.
\<close>

theorem embedded_field_flattened_witness:
  "isEmbeddedField embeddedExample
   \<and> marshalFields exampleExtern exampleOptions [(''admin'', 1)] False
        [embeddedExample] [(''X'', NilNode), (''Y'', NilNode)] []
      = (Return (MapNode [(''X'', Verbatim (text_of ''deep'')), (''Y'', NilNode)]), [])"
proof -
  have emb: "isEmbeddedField embeddedExample"
    by (simp add: embeddedExample_def isEmbeddedField_def fieldVal_def)
  have sk: "\<not> skipped embeddedExample"
    and si: "shouldShowFromSince exampleExtern exampleOptions embeddedExample = Inr True"
    and un: "shouldShowFromUntil exampleExtern exampleOptions embeddedExample = Inr True"
    by (simp_all add: embeddedExample_def walker_defs)
  have r: "marshalValue exampleExtern exampleOptions (fieldVal embeddedExample) [(''admin'', 1)]
          (pushParents exampleOptions embeddedExample
             (groupNames exampleOptions [] embeddedExample) []) True
      = (Return (MapNode [(''X'', Verbatim (text_of ''deep''))]), [])"
    by (simp add: embeddedExample_def walker_defs example_defs)
  have "marshalFields exampleExtern exampleOptions [(''admin'', 1)] False
        [embeddedExample] [(''X'', NilNode), (''Y'', NilNode)] []
     = marshalFields exampleExtern exampleOptions [(''admin'', 1)] False []
        (store True (jsonTag embeddedExample) (MapNode [(''X'', Verbatim (text_of ''deep''))])
           [(''X'', NilNode), (''Y'', NilNode)])
        (popParents exampleOptions embeddedExample
           (groupNames exampleOptions [] embeddedExample) [])"
    using embedded_field_flattened [OF emb, of exampleOptions "[(''admin'', 1)]" "[]" False
        exampleExtern "MapNode [(''X'', Verbatim (text_of ''deep''))]" "[]"
        "[]" "[(''X'', NilNode), (''Y'', NilNode)]"] sk si un r
    by blast
  then show ?thesis
    using emb by (simp add: embeddedExample_def walker_defs example_defs)
qed

subsection \<open>Visibility from version\<close>

text \<open>
  C5. With a target version \<open>V\<close>: a since tag that parses to \<open>S\<close> makes the field
  visible from since iff \<open>V\<close> is not less than \<open>S\<close>; an until tag that parses to
  \<open>U\<close> makes it visible from until iff \<open>V\<close> is not greater than \<open>U\<close>. For a
  field that is walked, with \<open>V < S\<close> the output is left as it was, whatever the group
  check says, and otherwise the value is stored iff the group and until checks pass.
\<close>

theorem version_visibility:
  assumes "ApiVersion options = Some V"
  shows "(since f \<noteq> [] \<longrightarrow> NewVersion ext (since f) = Some S \<longrightarrow>
            shouldShowFromSince ext options f = Inr (\<not> V < S))
    \<and> (until f \<noteq> [] \<longrightarrow> NewVersion ext (until f) = Some U \<longrightarrow>
            shouldShowFromUntil ext options f = Inr (\<not> V > U))
    \<and> (\<not> skipped f \<longrightarrow> since f \<noteq> [] \<longrightarrow> NewVersion ext (since f) = Some S \<longrightarrow>
        shouldShowFromUntil ext options f = Inr fromUntil \<longrightarrow>
        marshalValue ext options (fieldVal f) groupsSet
          (pushParents options f (groupNames options parents f) parents) (isEmbeddedField f)
          = (Return v, parents') \<longrightarrow>
        marshalFields ext options groupsSet embeddedParents (f # fs) dest parents =
        marshalFields ext options groupsSet embeddedParents fs
          (if V < S then dest
           else if shouldShowFromGroup options groupsSet parents embeddedParents
                     (isEmbeddedField f) f \<and> fromUntil
             then store (isEmbeddedField f) (jsonTag f) v dest
           else dest)
          (popParents options f (groupNames options parents f) parents'))"
  using assms by (simp add: shouldShowFromSince_def shouldShowFromUntil_def)

text \<open>
  At target version 2: since 3 hides the field, since 1 does not, until 1 hides it; the loop
  leaves the first out of the output and stores the second.
\<close>

theorem version_visibility_witness:
  "ApiVersion exampleOptions = Some 2
   \<and> shouldShowFromSince exampleExtern exampleOptions (sinceExample ''3'') = Inr False
   \<and> shouldShowFromSince exampleExtern exampleOptions (sinceExample ''1'') = Inr True
   \<and> shouldShowFromUntil exampleExtern exampleOptions
         (Field ''B'' False True [] [] [] ''1'' (text_of ''y'')) = Inr False
   \<and> marshalFields exampleExtern exampleOptions [(''admin'', 1)] False
         [sinceExample ''3''] [] [] = (Return (MapNode []), [])
   \<and> marshalFields exampleExtern exampleOptions [(''admin'', 1)] False
         [sinceExample ''1''] [] [] = (Return (MapNode [(''A'', Verbatim (text_of ''x''))]), [])"
proof -
  have v: "ApiVersion exampleOptions = Some 2"
    by (simp add: exampleOptions_def)
  have sk: "\<not> skipped (sinceExample s)" for s
    by (simp add: sinceExample_def text_of_def walker_defs)
  have un: "shouldShowFromUntil exampleExtern exampleOptions (sinceExample s) = Inr True" for s
    by (simp add: sinceExample_def shouldShowFromUntil_def)
  have call: "marshalValue exampleExtern exampleOptions (fieldVal (sinceExample s)) [(''admin'', 1)]
      (pushParents exampleOptions (sinceExample s) (groupNames exampleOptions [] (sinceExample s)) [])
      (isEmbeddedField (sinceExample s)) = (Return (Verbatim (text_of ''x'')), [])" for s
    by (simp add: sinceExample_def walker_defs example_defs)
  have p3: "NewVersion exampleExtern (since (sinceExample ''3'')) = Some 3"
    and p1: "NewVersion exampleExtern (since (sinceExample ''1'')) = Some 1"
    and ne: "since (sinceExample ''3'') \<noteq> []" "since (sinceExample ''1'') \<noteq> []"
    by (simp_all add: sinceExample_def exampleExtern_def)
  have hidden: "marshalFields exampleExtern exampleOptions [(''admin'', 1)] False
         [sinceExample ''3''] [] [] = (Return (MapNode []), [])"
    using version_visibility [OF v, where f = "sinceExample ''3''" and ext = exampleExtern
        and S = 3 and fromUntil = True and groupsSet = "[(''admin'', 1)]" and parents = "[]"
        and v = "Verbatim (text_of ''x'')" and parents' = "[]" and embeddedParents = False
        and fs = "[]" and dest = "[]"]
      sk [of "''3''"] un [of "''3''"] call [of "''3''"] p3 ne
    by (simp add: popParents_def sinceExample_def walker_defs example_defs)
  have shown: "marshalFields exampleExtern exampleOptions [(''admin'', 1)] False
         [sinceExample ''1''] [] [] = (Return (MapNode [(''A'', Verbatim (text_of ''x''))]), [])"
    using version_visibility [OF v, where f = "sinceExample ''1''" and ext = exampleExtern
        and S = 1 and fromUntil = True and groupsSet = "[(''admin'', 1)]" and parents = "[]"
        and v = "Verbatim (text_of ''x'')" and parents' = "[]" and embeddedParents = False
        and fs = "[]" and dest = "[]"]
      sk [of "''1''"] un [of "''1''"] call [of "''1''"] p1 ne
    by (simp add: popParents_def sinceExample_def walker_defs example_defs)
  show ?thesis
    using v hidden shown
      version_visibility [OF v, where f = "sinceExample ''3''" and ext = exampleExtern and S = 3]
      version_visibility [OF v, where f = "sinceExample ''1''" and ext = exampleExtern and S = 1]
      version_visibility [OF v, where f = "Field ''B'' False True [] [] [] ''1'' (text_of ''y'')"
        and ext = exampleExtern and U = 1]
    by (simp add: sinceExample_def exampleExtern_def)
qed

subsection \<open>A nil target version\<close>

text \<open>
  C9, as stated, fails: the tag is parsed before \<^verbatim>\<open>ApiVersion\<close> is read, so with a
  nil \<^verbatim>\<open>ApiVersion\<close> and a since tag that does not parse the call returns a proper
  error.
\<close>

theorem nil_version_parse_error_counterexample:
  "ApiVersion (exampleOptions\<lparr>ApiVersion := None\<rparr>) = None
   \<and> Marshal exampleExtern (exampleOptions\<lparr>ApiVersion := None\<rparr>)
        (VStruct Plain [sinceExample ''soon''])
      = Error (VersionParseError ''soon'')"
  by (simp add: walker_defs example_defs sinceExample_def)

text \<open>
  C9, amended. With a nil \<^verbatim>\<open>ApiVersion\<close>, a field that is not skipped and whose
  since tag parses, or that has no since tag and whose until tag parses, makes the loop
  panic on the comparison, and with it the call of \<^verbatim>\<open>Marshal\<close> on the struct
  that starts with the field: it returns neither a node nor an error. With an
  \<^verbatim>\<open>ApiVersion\<close> that is not nil neither version check panics.
\<close>

theorem nil_version_panics:
  "(ApiVersion options = None \<longrightarrow> \<not> skipped f \<longrightarrow>
      (since f \<noteq> [] \<and> NewVersion ext (since f) = Some S)
      \<or> (since f = [] \<and> until f \<noteq> [] \<and> NewVersion ext (until f) = Some U) \<longrightarrow>
      marshalFields ext options groupsSet embeddedParents (f # fs) dest parents
        = (Panic NilVersionDereference, parents)
      \<and> Marshal ext options (VStruct c (f # fs)) = Panic NilVersionDereference)
   \<and> (ApiVersion options \<noteq> None \<longrightarrow>
        shouldShowFromSince ext options f \<noteq> Inl (Panic p)
        \<and> shouldShowFromUntil ext options f \<noteq> Inl (Panic p))"
  by (auto simp: shouldShowFromSince_def shouldShowFromUntil_def Marshal_def
      marshalObject.simps split: option.splits)

text \<open>A since tag \<^verbatim>\<open>1\<close>: a panic without a target version, a value with one.\<close>

theorem nil_version_panics_witness:
  "Marshal exampleExtern (exampleOptions\<lparr>ApiVersion := None\<rparr>)
        (VStruct Plain [sinceExample ''1'']) = Panic NilVersionDereference
   \<and> shouldShowFromSince exampleExtern exampleOptions (sinceExample ''1'') = Inr True"
proof -
  have sk: "\<not> skipped (sinceExample ''1'')"
    by (simp add: sinceExample_def text_of_def walker_defs)
  have "marshalFields exampleExtern (exampleOptions\<lparr>ApiVersion := None\<rparr>) [(''admin'', 1)] False
          [sinceExample ''1''] [] []
        = (Panic NilVersionDereference, [])"
    using sk nil_version_panics [where options = "exampleOptions\<lparr>ApiVersion := None\<rparr>"
        and f = "sinceExample ''1''" and ext = exampleExtern and S = 1]
    by (simp add: sinceExample_def exampleExtern_def)
  then show ?thesis
    by (simp add: walker_defs example_defs sinceExample_def)
qed

subsection \<open>Keyed mappings\<close>

lemma marshalValue_pointer_map:
  "marshalValue ext options (VPtr Plain (VMap c kt es)) groupsSet parents embeddedParents =
     (if length es = 0 then (Return NilNode, parents)
      else if key_kind kt \<noteq> String
        then (Error (MarshalInvalidTypeError (key_kind kt) (VMap c kt es)), parents)
      else marshalMap ext options groupsSet embeddedParents kt es [] parents)"
  by (simp add: marshalValue.simps)

lemma marshalValue_interface_map:
  "marshalValue ext options (VInterface (VMap Plain kt es)) groupsSet parents embeddedParents =
     (if length es = 0 then (Return NilNode, parents)
      else if key_kind kt \<noteq> String
        then (Error (MarshalInvalidTypeError (key_kind kt) (VMap Plain kt es)), parents)
      else marshalMap ext options groupsSet False kt es [] parents)"
  by (simp add: marshalValue.simps marshalObject.simps)

text \<open>
  C7, as stated, fails: a mapping with an integer key type and no entry gives nil and
  no error; and a mapping with an integer key type whose type has a \<^verbatim>\<open>String\<close>
  method is handed on as it is, entries and all, since lines 193 to 202 come before the
  test of the key.
\<close>

theorem empty_int_map_counterexample:
  "marshalValue exampleExtern exampleOptions (VMap Plain (OtherKey Int_kind) [])
      [(''admin'', 1)] [] False
     = (Return NilNode, [])
   \<and> marshalValue exampleExtern exampleOptions
        (VMap SelfDescribing (OtherKey Int_kind) [(''7'', text_of ''x'')]) [(''admin'', 1)] [] False
     = (Return (Verbatim (VMap SelfDescribing (OtherKey Int_kind) [(''7'', text_of ''x'')])), [])"
  by (simp add: marshalValue.simps)

text \<open>
  C7, amended. A mapping with at least one entry whose key type is not of kind String,
  and whose type has none of the methods that \<^verbatim>\<open>marshalValue\<close> asks for first,
  gives a \<open>MarshalInvalidTypeError\<close> that holds the key's kind and the mapping itself,
  and no mapping; parents is as it was. So does a pointer to such a mapping when the
  pointer's type has none of the methods (the methods of the mapping are then not asked
  for), an interface that holds the mapping, and \<^verbatim>\<open>Marshal\<close> on the mapping.
\<close>

theorem non_string_key_rejected:
  assumes "es \<noteq> []" and "key_kind kt \<noteq> String"
  shows "marshalValue ext options (VMap Plain kt es) groupsSet parents embeddedParents
       = (Error (MarshalInvalidTypeError (key_kind kt) (VMap Plain kt es)), parents)
     \<and> marshalValue ext options (VPtr Plain (VMap c kt es)) groupsSet parents embeddedParents
       = (Error (MarshalInvalidTypeError (key_kind kt) (VMap c kt es)), parents)
     \<and> marshalValue ext options (VInterface (VMap Plain kt es)) groupsSet parents embeddedParents
       = (Error (MarshalInvalidTypeError (key_kind kt) (VMap Plain kt es)), parents)
     \<and> Marshal ext options (VMap Plain kt es)
       = Error (MarshalInvalidTypeError (key_kind kt) (VMap Plain kt es))"
  using assms
  by (simp add: marshalValue_plain_map marshalValue_pointer_map marshalValue_interface_map
      Marshal_def marshalObject.simps)

text \<open>A mapping with the one integer key 7, as it is and behind a pointer.\<close>

theorem non_string_key_rejected_witness:
  "marshalValue exampleExtern exampleOptions (VMap Plain (OtherKey Int_kind) [(''7'', text_of ''x'')])
      [(''admin'', 1)] [] False
     = (Error (MarshalInvalidTypeError Int_kind
          (VMap Plain (OtherKey Int_kind) [(''7'', text_of ''x'')])), [])
   \<and> marshalValue exampleExtern exampleOptions
        (VPtr Plain (VMap Plain (OtherKey Int_kind) [(''7'', text_of ''x'')]))
        [(''admin'', 1)] [] False
     = (Error (MarshalInvalidTypeError Int_kind
          (VMap Plain (OtherKey Int_kind) [(''7'', text_of ''x'')])), [])
   \<and> Marshal exampleExtern exampleOptions (VMap Plain (OtherKey Int_kind) [(''7'', text_of ''x'')])
     = Error (MarshalInvalidTypeError Int_kind
          (VMap Plain (OtherKey Int_kind) [(''7'', text_of ''x'')]))"
proof -
  have a: "[(''7'', text_of ''x'')] \<noteq> []" by simp
  have b: "key_kind (OtherKey Int_kind) \<noteq> String" by simp
  from non_string_key_rejected [OF a b, of exampleExtern exampleOptions "[(''admin'', 1)]" "[]"
      False Plain]
  show ?thesis by simp
qed

text \<open>
  C10, as stated, fails: a mapping with no entry whose type has a \<^verbatim>\<open>String\<close>
  method is handed on as it is, not as nil, and one whose type has a \<^verbatim>\<open>Marshal\<close>
  method gives what the method gives, here an error: lines 193 to 202 come before the
  test for an empty mapping.
\<close>

theorem described_empty_map_counterexample:
  "marshalValue exampleExtern exampleOptions (VMap SelfDescribing (OtherKey Int_kind) [])
      [(''admin'', 1)] [] False
     = (Return (Verbatim (VMap SelfDescribing (OtherKey Int_kind) [])), [])
   \<and> marshalValue exampleExtern exampleOptions (VMap SelfMarshalling StringKey [])
      [(''admin'', 1)] [] False
     = (Error (MarshallerError ''no''), [])"
  by (simp add: marshalValue.simps exampleExtern_def)

text \<open>
  C10, amended. A mapping with no entry whose type has none of the methods that
  \<^verbatim>\<open>marshalValue\<close> asks for first gives nil and no error, whatever its key type:
  the kind is read from the first key only. So does a pointer to a mapping with no entry
  when the pointer's type has none of the methods, and an interface that holds the
  mapping; parents is as it was.
\<close>

theorem empty_map_is_nil:
  "marshalValue ext options (VMap Plain kt []) groupsSet parents embeddedParents
     = (Return NilNode, parents)
   \<and> marshalValue ext options (VPtr Plain (VMap c kt [])) groupsSet parents embeddedParents
     = (Return NilNode, parents)
   \<and> marshalValue ext options (VInterface (VMap Plain kt [])) groupsSet parents embeddedParents
     = (Return NilNode, parents)"
  by (simp add: marshalValue_plain_map marshalValue_pointer_map marshalValue_interface_map)

text \<open>An empty mapping with boolean keys, and one with keys of a defined string type.\<close>

theorem empty_map_is_nil_witness:
  "marshalValue exampleExtern exampleOptions (VMap Plain (OtherKey Bool) []) [(''admin'', 1)] [] True
     = (Return NilNode, [])
   \<and> marshalValue exampleExtern exampleOptions (VPtr Plain (VMap Plain (OtherKey String) []))
        [(''admin'', 1)] [] True
     = (Return NilNode, [])"
  using empty_map_is_nil [of exampleExtern exampleOptions "OtherKey Bool" "[(''admin'', 1)]" "[]" True]
    empty_map_is_nil [of exampleExtern exampleOptions "OtherKey String" "[(''admin'', 1)]" "[]" True
      Plain]
  by simp

subsection \<open>Push and pop around the recursive call\<close>

lemma index_pushParents:
  "index (pushParents options f names parents) g =
     index parents g + (if InheritGroups options \<or> isEmbeddedField f then int (count_list names g) else 0)"
  by (simp add: pushParents_def index_incrementGroups)

lemma index_popParents:
  "index (popParents options f names parents) g =
     index parents g - (if InheritGroups options \<or> isEmbeddedField f then int (count_list names g) else 0)"
  by (simp add: popParents_def index_decrementGroups)

lemma index_pop_push:
  assumes "index parents' g = index (pushParents options f names parents) g"
  shows "index (popParents options f names parents') g = index parents g"
  using assms by (simp add: index_pushParents index_popParents)

lemma returns_simps [simp]:
  "returns (Return v, s)" "returns (Error e, s)" "\<not> returns (Panic p, s)"
  by (simp_all add: returns_def)

lemma walker_balanced:
  "returns (marshalObject ext options data groupsSet parents embeddedParents) \<Longrightarrow>
     index (snd (marshalObject ext options data groupsSet parents embeddedParents)) g
       = index parents g"
  "returns (marshalFields ext options groupsSet embeddedParents fs dest parents) \<Longrightarrow>
     index (snd (marshalFields ext options groupsSet embeddedParents fs dest parents)) g
       = index parents g"
  "returns (marshalValue ext options v groupsSet parents embeddedParents) \<Longrightarrow>
     index (snd (marshalValue ext options v groupsSet parents embeddedParents)) g
       = index parents g"
  "returns (marshalSlice ext options groupsSet embeddedParents xs sdest parents) \<Longrightarrow>
     index (snd (marshalSlice ext options groupsSet embeddedParents xs sdest parents)) g
       = index parents g"
  "returns (marshalMap ext options groupsSet embeddedParents kt es mdest parents) \<Longrightarrow>
     index (snd (marshalMap ext options groupsSet embeddedParents kt es mdest parents)) g
       = index parents g"
proof (induction ext options data groupsSet parents embeddedParents
    and ext options groupsSet embeddedParents fs dest parents
    and ext options v groupsSet parents embeddedParents
    and ext options groupsSet embeddedParents xs sdest parents
    and ext options groupsSet embeddedParents kt es mdest parents
    rule: marshalObject_marshalFields_marshalValue_marshalSlice_marshalMap.induct)
  case (1 ext options data groupsSet parents embeddedParents)
  then show ?case
    by (simp add: marshalObject.simps split: gvalue.splits if_splits)
next
  case (2 ext options groupsSet embeddedParents dest parents)
  then show ?case by simp
next
  case (3 ext options groupsSet embeddedParents f fs dest parents)
  show ?case
  proof (cases "skipped f")
    case True
    with 3 show ?thesis by simp
  next
    case sk: False
    show ?thesis
    proof (cases "shouldShowFromSince ext options f")
      case (Inl r)
      with sk show ?thesis by simp
    next
      case si: (Inr b)
      show ?thesis
      proof (cases "shouldShowFromUntil ext options f")
        case (Inl r)
        with sk si show ?thesis by simp
      next
        case un: (Inr ba)
        obtain r y where call: "marshalValue ext options (fieldVal f) groupsSet
            (pushParents options f (groupNames options parents f) parents)
            (isEmbeddedField f) = (r, y)"
          by (cases "marshalValue ext options (fieldVal f) groupsSet
            (pushParents options f (groupNames options parents f) parents)
            (isEmbeddedField f)")
        show ?thesis
        proof (cases r)
          case (Panic p)
          with sk si un call "3.prems" show ?thesis by simp
        next
          case (Error err)
          with call have "returns (marshalValue ext options (fieldVal f) groupsSet
            (pushParents options f (groupNames options parents f) parents)
            (isEmbeddedField f))" by simp
          from "3.IH"(2) [OF sk si un this] call
          have "index y g = index (pushParents options f (groupNames options parents f) parents) g"
            by simp
          then have "index (popParents options f (groupNames options parents f) y) g
              = index parents g"
            by (rule index_pop_push)
          with sk si un call Error show ?thesis by simp
        next
          case (Return x1)
          with call have "returns (marshalValue ext options (fieldVal f) groupsSet
            (pushParents options f (groupNames options parents f) parents)
            (isEmbeddedField f))" by simp
          from "3.IH"(2) [OF sk si un this] call
          have "index y g = index (pushParents options f (groupNames options parents f) parents) g"
            by simp
          then have pop: "index (popParents options f (groupNames options parents f) y) g
              = index parents g"
            by (rule index_pop_push)
          from sk si un call Return "3.prems"
          have "returns (marshalFields ext options groupsSet embeddedParents fs
              (if shouldShowFromGroup options groupsSet parents embeddedParents
                   (isEmbeddedField f) f \<and> b \<and> ba
               then store (isEmbeddedField f) (jsonTag f) x1 dest else dest)
              (popParents options f (groupNames options parents f) y))"
            by simp
          from "3.IH"(3) [OF sk si un call [symmetric] Return this] pop
          show ?thesis using sk si un call Return by simp
        qed
      qed
    qed
  qed
next
  case (4 ext options v groupsSet parents embeddedParents)
  show ?case
  proof (cases "IsValid v \<and> capability_of (Interface_of v) = Plain")
    case False
    then show ?thesis
      by (cases "capability_of (Interface_of v)") (auto simp: marshalValue.simps)
  next
    case True
    then have plain: "\<not> \<not> IsValid v" "capability_of (Interface_of v) \<noteq> SelfMarshalling"
      "capability_of (Interface_of v) \<noteq> SelfDescribing"
      by simp_all
    show ?thesis
    proof (cases "if Kind v = Ptr then Elem v else v")
      case (VInterface x)
      with True have "marshalValue ext options v groupsSet parents embeddedParents
          = marshalObject ext options x groupsSet parents embeddedParents"
        by (simp add: marshalValue.simps)
      with "4.IH"(1) [OF plain VInterface] "4.prems" show ?thesis by simp
    next
      case (VStruct c fs)
      with True have "marshalValue ext options v groupsSet parents embeddedParents
          = marshalObject ext options (VStruct c fs) groupsSet parents embeddedParents"
        by (simp add: marshalValue.simps)
      with "4.IH"(2) [OF plain VStruct] "4.prems" show ?thesis by simp
    next
      case (VSlice c xs)
      with True have "marshalValue ext options v groupsSet parents embeddedParents
          = marshalSlice ext options groupsSet embeddedParents xs [] parents"
        by (simp add: marshalValue.simps)
      with "4.IH"(3) [OF plain VSlice] "4.prems" show ?thesis by simp
    next
      case (VMap c k es)
      show ?thesis
      proof (cases "length es \<noteq> 0 \<and> key_kind k = String")
        case False
        with True VMap show ?thesis
          by (auto simp: marshalValue.simps)
      next
        case yes: True
        with True VMap have "marshalValue ext options v groupsSet parents embeddedParents
            = marshalMap ext options groupsSet embeddedParents k es [] parents"
          by (simp add: marshalValue.simps)
        with "4.IH"(4) [OF plain VMap] yes "4.prems" show ?thesis by simp
      qed
    qed (use True in \<open>simp_all add: marshalValue.simps\<close>)
  qed
next
  case (5 ext options groupsSet embeddedParents dest parents)
  then show ?case by simp
next
  case (6 ext options groupsSet embeddedParents x xs dest parents)
  obtain r y where call: "marshalValue ext options x groupsSet parents embeddedParents = (r, y)"
    by (cases "marshalValue ext options x groupsSet parents embeddedParents")
  show ?case
  proof (cases r)
    case (Return d)
    from call Return "6.IH"(1) have y: "index y g = index parents g" by simp
    from call Return "6.prems"
    have "returns (marshalSlice ext options groupsSet embeddedParents xs (dest @ [d]) y)"
      by simp
    from "6.IH"(2) [OF call [symmetric] Return this] y call Return
    show ?thesis by simp
  next
    case (Error err)
    with call "6.IH"(1) show ?thesis by simp
  next
    case (Panic p)
    with call "6.prems" show ?thesis by simp
  qed
next
  case (7 ext options groupsSet embeddedParents kt dest parents)
  then show ?case by simp
next
  case (8 ext options groupsSet embeddedParents kt key x es dest parents)
  obtain r y where call: "marshalValue ext options x groupsSet parents embeddedParents = (r, y)"
    by (cases "marshalValue ext options x groupsSet parents embeddedParents")
  show ?case
  proof (cases r)
    case (Return d)
    from call Return "8.IH"(1) have y: "index y g = index parents g" by simp
    show ?thesis
    proof (cases "kt = StringKey")
      case True
      with call Return "8.prems"
      have "returns (marshalMap ext options groupsSet embeddedParents kt es
          (AList.update key d dest) y)"
        by simp
      from "8.IH"(2) [OF call [symmetric] Return True this] y call Return True
      show ?thesis by simp
    next
      case False
      with call Return "8.prems" show ?thesis by simp
    qed
  next
    case (Error err)
    with call "8.IH"(1) show ?thesis by simp
  next
    case (Panic p)
    with call "8.prems" show ?thesis by simp
  qed
qed

text \<open>
  C3, as stated, fails in one part: what is pushed is the local \<^verbatim>\<open>groupNames\<close>,
  which holds the field's declared groups only when the group check is evaluated. With
  \<^verbatim>\<open>InheritGroups\<close> on and no group activated the check is not evaluated, so
  the declared group \<^verbatim>\<open>admin\<close> of the field is not pushed: the recursive call
  starts from the empty parents map, and the untagged field \<^verbatim>\<open>X\<close> inside is
  marshalled, which it would not be had \<^verbatim>\<open>admin\<close> been pushed.
\<close>

theorem declared_groups_not_pushed_counterexample:
  "InheritGroups inheritOnly
   \<and> declaredGroups (adminStruct (text_of ''x'')) = [''admin'']
   \<and> \<not> skipped (adminStruct (text_of ''x''))
   \<and> pushParents inheritOnly (adminStruct (text_of ''x''))
         (groupNames inheritOnly [] (adminStruct (text_of ''x''))) [] = []
   \<and> Marshal exampleExtern inheritOnly (VStruct Plain [adminStruct (text_of ''x'')])
       = Return (MapNode [(''Inner'', MapNode [(''X'', Verbatim (text_of ''x''))])])
   \<and> \<not> shouldShowFromGroup inheritOnly [] (incrementGroups [] [''admin'']) False False
         (Field ''X'' False True [] [] [] [] (text_of ''x''))"
  by (simp add: inheritOnly_def adminStruct_def declaredGroups_def walker_defs example_defs)

text \<open>
  C3, amended. For every call of \<^verbatim>\<open>marshalObject\<close> that returns, with a value or
  with an error, and every group name, the count of the name in parents at the return is
  its count at the entry. At a field that reaches the recursive call, the names pushed
  are its declared groups when the group check is evaluated and none when it is not. If
  \<^verbatim>\<open>InheritGroups\<close> is on or the field is an embedded struct field, the
  recursive call runs on parents with these names pushed, and the same names are popped
  from the parents it leaves, before the error is returned or the next field is looked
  at; otherwise parents goes into the call and comes out of it as it is. Either way, once
  the call has come back with a value or an error, every count is what it was before the
  field. A push adds one to the count of a name for each time it is listed, a pop takes
  one off.
\<close>

theorem parents_balanced:
  "(returns (marshalObject ext options data groupsSet parents embeddedParents) \<longrightarrow>
      index (snd (marshalObject ext options data groupsSet parents embeddedParents)) g
        = index parents g)
   \<and> (\<not> skipped f \<longrightarrow> shouldShowFromSince ext options f = Inr fromSince \<longrightarrow>
      shouldShowFromUntil ext options f = Inr fromUntil \<longrightarrow>
      marshalFields ext options groupsSet embeddedParents (f # fs) dest parents =
        (case marshalValue ext options (fieldVal f) groupsSet
                (if InheritGroups options \<or> isEmbeddedField f
                 then incrementGroups parents
                        (if checkGroups options parents then declaredGroups f else [])
                 else parents)
                (isEmbeddedField f) of
           (Panic p, parents') \<Rightarrow> (Panic p, parents')
         | (Error err, parents') \<Rightarrow>
             (Error err,
              if InheritGroups options \<or> isEmbeddedField f
              then decrementGroups parents'
                     (if checkGroups options parents then declaredGroups f else [])
              else parents')
         | (Return v, parents') \<Rightarrow>
             marshalFields ext options groupsSet embeddedParents fs
               (if shouldShowFromGroup options groupsSet parents embeddedParents
                     (isEmbeddedField f) f \<and> fromSince \<and> fromUntil
                then store (isEmbeddedField f) (jsonTag f) v dest else dest)
               (if InheritGroups options \<or> isEmbeddedField f
                then decrementGroups parents'
                       (if checkGroups options parents then declaredGroups f else [])
                else parents'))
      \<and> (\<forall>r parents'.
            marshalValue ext options (fieldVal f) groupsSet
              (if InheritGroups options \<or> isEmbeddedField f
               then incrementGroups parents
                      (if checkGroups options parents then declaredGroups f else [])
               else parents)
              (isEmbeddedField f) = (r, parents') \<longrightarrow>
            (\<forall>p. r \<noteq> Panic p) \<longrightarrow>
            index (if InheritGroups options \<or> isEmbeddedField f
                   then decrementGroups parents'
                          (if checkGroups options parents then declaredGroups f else [])
                   else parents') g
              = index parents g))
   \<and> index (incrementGroups parents names) g = index parents g + int (count_list names g)
   \<and> index (decrementGroups parents names) g = index parents g - int (count_list names g)"
proof -
  let ?names = "if checkGroups options parents then declaredGroups f else []"
  let ?push = "if InheritGroups options \<or> isEmbeddedField f
               then incrementGroups parents ?names else parents"
  have n: "groupNames options parents f = ?names"
    by (simp add: groupNames_def declaredGroups_def)
  have push: "pushParents options f (groupNames options parents f) parents = ?push"
    unfolding n by (simp add: pushParents_def)
  have pop: "popParents options f (groupNames options parents f) y
      = (if InheritGroups options \<or> isEmbeddedField f then decrementGroups y ?names else y)" for y
    unfolding n by (simp add: popParents_def)
  have restored: "index (if InheritGroups options \<or> isEmbeddedField f
                   then decrementGroups parents' ?names else parents') g = index parents g"
    if call: "marshalValue ext options (fieldVal f) groupsSet ?push (isEmbeddedField f)
        = (r, parents')" and r: "\<forall>p. r \<noteq> Panic p" for r parents'
  proof -
    from call r have "returns (marshalValue ext options (fieldVal f) groupsSet ?push
        (isEmbeddedField f))"
      by (simp add: returns_def)
    from walker_balanced(3) [OF this, of g] call
    have "index parents' g = index (pushParents options f (groupNames options parents f) parents) g"
      unfolding push by simp
    then have "index (popParents options f (groupNames options parents f) parents') g
        = index parents g"
      by (rule index_pop_push)
    then show ?thesis unfolding pop .
  qed
  have step: "marshalFields ext options groupsSet embeddedParents (f # fs) dest parents =
        (case marshalValue ext options (fieldVal f) groupsSet ?push (isEmbeddedField f) of
           (Panic p, parents') \<Rightarrow> (Panic p, parents')
         | (Error err, parents') \<Rightarrow>
             (Error err,
              if InheritGroups options \<or> isEmbeddedField f
              then decrementGroups parents' ?names else parents')
         | (Return v, parents') \<Rightarrow>
             marshalFields ext options groupsSet embeddedParents fs
               (if shouldShowFromGroup options groupsSet parents embeddedParents
                     (isEmbeddedField f) f \<and> fromSince \<and> fromUntil
                then store (isEmbeddedField f) (jsonTag f) v dest else dest)
               (if InheritGroups options \<or> isEmbeddedField f
                then decrementGroups parents' ?names else parents'))"
    if "\<not> skipped f" "shouldShowFromSince ext options f = Inr fromSince"
      "shouldShowFromUntil ext options f = Inr fromUntil"
    unfolding marshalFields_step [OF that] push pop ..
  show ?thesis
    using walker_balanced(1) [of ext options data groupsSet parents embeddedParents g]
      step restored
    by (simp add: index_incrementGroups index_decrementGroups)
qed

text \<open>
  With \<^verbatim>\<open>InheritGroups\<close> on and \<^verbatim>\<open>admin\<close> activated, a field tagged
  \<^verbatim>\<open>admin\<close>. When its struct holds a map with boolean keys, the call returns the
  error and \<^verbatim>\<open>admin\<close> is back at count 0. When its struct holds an untagged
  field \<^verbatim>\<open>X\<close>, the walk of the struct shows \<^verbatim>\<open>X\<close> on parents with
  \<^verbatim>\<open>admin\<close> pushed and hides it on parents without, and the loop has
  \<^verbatim>\<open>X\<close> in its output: the push came before the recursive call.
\<close>

theorem parents_balanced_witness:
  "marshalObject exampleExtern (exampleOptions\<lparr>InheritGroups := True\<rparr>)
      (VStruct Plain [adminStruct (VMap Plain (OtherKey Bool) [(''k'', text_of ''x'')])])
      [(''admin'', 1)] [] False
    = (Error (MarshalInvalidTypeError Bool (VMap Plain (OtherKey Bool) [(''k'', text_of ''x'')])),
       [(''admin'', 0)])
   \<and> index (snd (marshalObject exampleExtern (exampleOptions\<lparr>InheritGroups := True\<rparr>)
      (VStruct Plain [adminStruct (VMap Plain (OtherKey Bool) [(''k'', text_of ''x'')])])
      [(''admin'', 1)] [] False)) ''admin'' = index [] ''admin''
   \<and> \<not> skipped (adminStruct (text_of ''y''))
   \<and> marshalValue exampleExtern (exampleOptions\<lparr>InheritGroups := True\<rparr>)
        (fieldVal (adminStruct (text_of ''y''))) [(''admin'', 1)] [(''admin'', 1)] False
      = (Return (MapNode [(''X'', Verbatim (text_of ''y''))]), [(''admin'', 1)])
   \<and> marshalValue exampleExtern (exampleOptions\<lparr>InheritGroups := True\<rparr>)
        (fieldVal (adminStruct (text_of ''y''))) [(''admin'', 1)] [] False
      = (Return (MapNode []), [])
   \<and> marshalFields exampleExtern (exampleOptions\<lparr>InheritGroups := True\<rparr>) [(''admin'', 1)]
        False [adminStruct (text_of ''y'')] [] []
      = (Return (MapNode [(''Inner'', MapNode [(''X'', Verbatim (text_of ''y''))])]),
         [(''admin'', 0)])"
proof -
  let ?o = "exampleOptions\<lparr>InheritGroups := True\<rparr>"
  let ?f = "adminStruct (text_of ''y'')"
  have c: "marshalObject exampleExtern ?o
      (VStruct Plain [adminStruct (VMap Plain (OtherKey Bool) [(''k'', text_of ''x'')])])
      [(''admin'', 1)] [] False
    = (Error (MarshalInvalidTypeError Bool (VMap Plain (OtherKey Bool) [(''k'', text_of ''x'')])),
       [(''admin'', 0)])"
    by (simp add: adminStruct_def walker_defs example_defs)
  then have r: "returns (marshalObject exampleExtern ?o
      (VStruct Plain [adminStruct (VMap Plain (OtherKey Bool) [(''k'', text_of ''x'')])])
      [(''admin'', 1)] [] False)"
    by simp
  have sk: "\<not> skipped ?f"
    and si: "shouldShowFromSince exampleExtern ?o ?f = Inr True"
    and un: "shouldShowFromUntil exampleExtern ?o ?f = Inr True"
    by (simp_all add: adminStruct_def walker_defs example_defs)
  have pushed: "marshalValue exampleExtern ?o (fieldVal ?f) [(''admin'', 1)] [(''admin'', 1)] False
      = (Return (MapNode [(''X'', Verbatim (text_of ''y''))]), [(''admin'', 1)])"
    and bare: "marshalValue exampleExtern ?o (fieldVal ?f) [(''admin'', 1)] [] False
      = (Return (MapNode []), [])"
    by (simp_all add: adminStruct_def walker_defs example_defs)
  note b = parents_balanced [of exampleExtern ?o
      "VStruct Plain [adminStruct (VMap Plain (OtherKey Bool) [(''k'', text_of ''x'')])]"
      "[(''admin'', 1)]" "[]" False "''admin''" ?f True True "[]" "[]"]
  from b sk si un
  have "marshalFields exampleExtern ?o [(''admin'', 1)] False [?f] [] [] =
        (case marshalValue exampleExtern ?o (fieldVal ?f) [(''admin'', 1)]
                (if InheritGroups ?o \<or> isEmbeddedField ?f
                 then incrementGroups [] (if checkGroups ?o [] then declaredGroups ?f else [])
                 else [])
                (isEmbeddedField ?f) of
           (Panic p, parents') \<Rightarrow> (Panic p, parents')
         | (Error err, parents') \<Rightarrow>
             (Error err,
              if InheritGroups ?o \<or> isEmbeddedField ?f
              then decrementGroups parents' (if checkGroups ?o [] then declaredGroups ?f else [])
              else parents')
         | (Return v, parents') \<Rightarrow>
             marshalFields exampleExtern ?o [(''admin'', 1)] False []
               (if shouldShowFromGroup ?o [(''admin'', 1)] [] False (isEmbeddedField ?f) ?f
                     \<and> True \<and> True
                then store (isEmbeddedField ?f) (jsonTag ?f) v [] else [])
               (if InheritGroups ?o \<or> isEmbeddedField ?f
                then decrementGroups parents' (if checkGroups ?o [] then declaredGroups ?f else [])
                else parents'))"
    by blast
  also have "\<dots> = (Return (MapNode [(''Inner'', MapNode [(''X'', Verbatim (text_of ''y''))])]),
         [(''admin'', 0)])"
    by (simp add: adminStruct_def declaredGroups_def walker_defs example_defs)
  finally have m: "marshalFields exampleExtern ?o [(''admin'', 1)] False [?f] [] []
      = (Return (MapNode [(''Inner'', MapNode [(''X'', Verbatim (text_of ''y''))])]),
         [(''admin'', 0)])" .
  from b r have "index (snd (marshalObject exampleExtern ?o
      (VStruct Plain [adminStruct (VMap Plain (OtherKey Bool) [(''k'', text_of ''x'')])])
      [(''admin'', 1)] [] False)) ''admin'' = index [] ''admin''"
    by blast
  with c sk pushed bare m show ?thesis by blast
qed

subsection \<open>What a call leaves of parents\<close>

lemma steady_refl: "steady options p p"
  by (simp add: steady_def)

lemma steady_checkGroups: "steady options p p' \<Longrightarrow> checkGroups options p' = checkGroups options p"
  by (auto simp: steady_def checkGroups_def len_pos_iff)

lemma steady_trans: "steady options p q \<Longrightarrow> steady options q r \<Longrightarrow> steady options p r"
  by (auto simp: steady_def)

lemma update_not_Nil: "AList.update k v s \<noteq> []"
  by (cases s) auto

lemma incrementGroups_Nil_iff: "(incrementGroups s names = []) = (s = [] \<and> names = [])"
  by (induction names arbitrary: s) (simp_all add: update_not_Nil)

lemma decrementGroups_Nil_iff: "(decrementGroups s names = []) = (s = [] \<and> names = [])"
  by (induction names arbitrary: s) (simp_all add: update_not_Nil)

lemma steady_sandwich:
  assumes "steady options (pushParents options f (groupNames options p f) p) y"
  shows "steady options p (popParents options f (groupNames options p f) y)"
proof (cases "checkGroups options p")
  case False
  then have n: "groupNames options p f = []"
    by (simp add: groupNames_def)
  with assms False show ?thesis
    by (auto simp: pushParents_def popParents_def)
next
  case True
  from assms have "\<And>g. index y g = index (pushParents options f (groupNames options p f) p) g"
    by (simp add: steady_def)
  then have i: "\<And>g. index (popParents options f (groupNames options p f) y) g = index p g"
    by (rule index_pop_push)
  from assms have "p \<noteq> [] \<Longrightarrow> y \<noteq> []"
    by (auto simp: steady_def pushParents_def incrementGroups_Nil_iff split: if_splits)
  then have "p \<noteq> [] \<Longrightarrow> popParents options f (groupNames options p f) y \<noteq> []"
    by (simp add: popParents_def decrementGroups_Nil_iff)
  with i True show ?thesis
    by (simp add: steady_def)
qed

lemma walker_steady:
  "returns (marshalObject ext options data groupsSet parents embeddedParents) \<Longrightarrow>
     steady options parents (snd (marshalObject ext options data groupsSet parents embeddedParents))"
  "returns (marshalFields ext options groupsSet embeddedParents fs dest parents) \<Longrightarrow>
     steady options parents (snd (marshalFields ext options groupsSet embeddedParents fs dest parents))"
  "returns (marshalValue ext options v groupsSet parents embeddedParents) \<Longrightarrow>
     steady options parents (snd (marshalValue ext options v groupsSet parents embeddedParents))"
  "returns (marshalSlice ext options groupsSet embeddedParents xs sdest parents) \<Longrightarrow>
     steady options parents (snd (marshalSlice ext options groupsSet embeddedParents xs sdest parents))"
  "returns (marshalMap ext options groupsSet embeddedParents kt es mdest parents) \<Longrightarrow>
     steady options parents (snd (marshalMap ext options groupsSet embeddedParents kt es mdest parents))"
proof (induction ext options data groupsSet parents embeddedParents
    and ext options groupsSet embeddedParents fs dest parents
    and ext options v groupsSet parents embeddedParents
    and ext options groupsSet embeddedParents xs sdest parents
    and ext options groupsSet embeddedParents kt es mdest parents
    rule: marshalObject_marshalFields_marshalValue_marshalSlice_marshalMap.induct)
  case (1 ext options data groupsSet parents embeddedParents)
  then show ?case
    by (simp add: marshalObject.simps steady_refl split: gvalue.splits if_splits)
next
  case (2 ext options groupsSet embeddedParents dest parents)
  then show ?case by (simp add: steady_refl)
next
  case (3 ext options groupsSet embeddedParents f fs dest parents)
  show ?case
  proof (cases "skipped f")
    case True
    with 3 show ?thesis by simp
  next
    case sk: False
    show ?thesis
    proof (cases "shouldShowFromSince ext options f")
      case (Inl r)
      with sk show ?thesis by (simp add: steady_refl)
    next
      case si: (Inr b)
      show ?thesis
      proof (cases "shouldShowFromUntil ext options f")
        case (Inl r)
        with sk si show ?thesis by (simp add: steady_refl)
      next
        case un: (Inr ba)
        obtain r y where call: "marshalValue ext options (fieldVal f) groupsSet
            (pushParents options f (groupNames options parents f) parents)
            (isEmbeddedField f) = (r, y)"
          by (cases "marshalValue ext options (fieldVal f) groupsSet
            (pushParents options f (groupNames options parents f) parents)
            (isEmbeddedField f)")
        have pop: "steady options parents (popParents options f (groupNames options parents f) y)"
          if "\<forall>p. r \<noteq> Panic p"
        proof -
          from that call have "returns (marshalValue ext options (fieldVal f) groupsSet
            (pushParents options f (groupNames options parents f) parents)
            (isEmbeddedField f))" by (simp add: returns_def)
          from "3.IH"(2) [OF sk si un this] call
          have "steady options (pushParents options f (groupNames options parents f) parents) y"
            by simp
          then show ?thesis by (rule steady_sandwich)
        qed
        show ?thesis
        proof (cases r)
          case (Panic p)
          with sk si un call "3.prems" show ?thesis by simp
        next
          case (Error err)
          with pop sk si un call show ?thesis by simp
        next
          case (Return x1)
          from sk si un call Return "3.prems"
          have "returns (marshalFields ext options groupsSet embeddedParents fs
              (if shouldShowFromGroup options groupsSet parents embeddedParents
                   (isEmbeddedField f) f \<and> b \<and> ba
               then store (isEmbeddedField f) (jsonTag f) x1 dest else dest)
              (popParents options f (groupNames options parents f) y))"
            by simp
          from "3.IH"(3) [OF sk si un call [symmetric] Return this] pop Return
          show ?thesis using sk si un call by (auto intro: steady_trans)
        qed
      qed
    qed
  qed
next
  case (4 ext options v groupsSet parents embeddedParents)
  show ?case
  proof (cases "IsValid v \<and> capability_of (Interface_of v) = Plain")
    case False
    then show ?thesis
      by (cases "capability_of (Interface_of v)") (auto simp: marshalValue.simps steady_refl)
  next
    case True
    then have plain: "\<not> \<not> IsValid v" "capability_of (Interface_of v) \<noteq> SelfMarshalling"
      "capability_of (Interface_of v) \<noteq> SelfDescribing"
      by simp_all
    show ?thesis
    proof (cases "if Kind v = Ptr then Elem v else v")
      case (VInterface x)
      with True have "marshalValue ext options v groupsSet parents embeddedParents
          = marshalObject ext options x groupsSet parents embeddedParents"
        by (simp add: marshalValue.simps)
      with "4.IH"(1) [OF plain VInterface] "4.prems" show ?thesis by simp
    next
      case (VStruct c fs)
      with True have "marshalValue ext options v groupsSet parents embeddedParents
          = marshalObject ext options (VStruct c fs) groupsSet parents embeddedParents"
        by (simp add: marshalValue.simps)
      with "4.IH"(2) [OF plain VStruct] "4.prems" show ?thesis by simp
    next
      case (VSlice c xs)
      with True have "marshalValue ext options v groupsSet parents embeddedParents
          = marshalSlice ext options groupsSet embeddedParents xs [] parents"
        by (simp add: marshalValue.simps)
      with "4.IH"(3) [OF plain VSlice] "4.prems" show ?thesis by simp
    next
      case (VMap c k es)
      show ?thesis
      proof (cases "length es \<noteq> 0 \<and> key_kind k = String")
        case False
        with True VMap show ?thesis
          by (auto simp: marshalValue.simps steady_refl)
      next
        case yes: True
        with True VMap have "marshalValue ext options v groupsSet parents embeddedParents
            = marshalMap ext options groupsSet embeddedParents k es [] parents"
          by (simp add: marshalValue.simps)
        with "4.IH"(4) [OF plain VMap] yes "4.prems" show ?thesis by simp
      qed
    qed (use True in \<open>simp_all add: marshalValue.simps steady_refl\<close>)
  qed
next
  case (5 ext options groupsSet embeddedParents dest parents)
  then show ?case by (simp add: steady_refl)
next
  case (6 ext options groupsSet embeddedParents x xs dest parents)
  obtain r y where call: "marshalValue ext options x groupsSet parents embeddedParents = (r, y)"
    by (cases "marshalValue ext options x groupsSet parents embeddedParents")
  show ?case
  proof (cases r)
    case (Return d)
    from call Return "6.IH"(1) have y: "steady options parents y" by simp
    from call Return "6.prems"
    have "returns (marshalSlice ext options groupsSet embeddedParents xs (dest @ [d]) y)"
      by simp
    from "6.IH"(2) [OF call [symmetric] Return this] y call Return
    show ?thesis by (auto intro: steady_trans)
  next
    case (Error err)
    with call "6.IH"(1) show ?thesis by simp
  next
    case (Panic p)
    with call "6.prems" show ?thesis by simp
  qed
next
  case (7 ext options groupsSet embeddedParents kt dest parents)
  then show ?case by (simp add: steady_refl)
next
  case (8 ext options groupsSet embeddedParents kt key x es dest parents)
  obtain r y where call: "marshalValue ext options x groupsSet parents embeddedParents = (r, y)"
    by (cases "marshalValue ext options x groupsSet parents embeddedParents")
  show ?case
  proof (cases r)
    case (Return d)
    from call Return "8.IH"(1) have y: "steady options parents y" by simp
    show ?thesis
    proof (cases "kt = StringKey")
      case True
      with call Return "8.prems"
      have "returns (marshalMap ext options groupsSet embeddedParents kt es
          (AList.update key d dest) y)"
        by simp
      from "8.IH"(2) [OF call [symmetric] Return True this] y call Return True
      show ?thesis by (auto intro: steady_trans)
    next
      case False
      with call Return "8.prems" show ?thesis by simp
    qed
  next
    case (Error err)
    with call "8.IH"(1) show ?thesis by simp
  next
    case (Panic p)
    with call "8.prems" show ?thesis by simp
  qed
qed

subsection \<open>Parents maps that no call tells apart\<close>

lemma alike_refl: "alike options p p"
  by (simp add: alike_def)

lemma alike_sym: "alike options p q \<Longrightarrow> alike options q p"
  by (simp add: alike_def)

lemma alike_trans: "alike options p q \<Longrightarrow> alike options q r \<Longrightarrow> alike options p r"
  by (simp add: alike_def)

lemma steady_alike: "steady options p p' \<Longrightarrow> alike options p p'"
  by (simp add: alike_def steady_checkGroups) (simp add: steady_def)

lemma alike_groupNames: "alike options p q \<Longrightarrow> groupNames options p f = groupNames options q f"
  by (simp add: alike_def groupNames_def)

lemma alike_shouldShowFromGroup:
  "alike options p q \<Longrightarrow>
   shouldShowFromGroup options groupsSet p embeddedParents e f
     = shouldShowFromGroup options groupsSet q embeddedParents e f"
  by (simp add: shouldShowFromGroup_def alike_groupNames [of options p q] containsAny_iff)
     (simp add: alike_def)

lemma checkGroups_push:
  "checkGroups options (pushParents options f names p) =
     (checkGroups options p
      \<or> (InheritGroups options \<and> names \<noteq> []))"
  by (auto simp: checkGroups_def pushParents_def len_pos_iff incrementGroups_Nil_iff)

lemma checkGroups_pop:
  "checkGroups options (popParents options f names p) =
     (checkGroups options p
      \<or> (InheritGroups options \<and> names \<noteq> []))"
  by (auto simp: checkGroups_def popParents_def len_pos_iff decrementGroups_Nil_iff)

lemma alike_push:
  "alike options p q \<Longrightarrow>
   alike options (pushParents options f names p) (pushParents options f names q)"
  by (simp add: alike_def index_pushParents checkGroups_push)

lemma alike_pop:
  "alike options p q \<Longrightarrow>
   alike options (popParents options f names p) (popParents options f names q)"
  by (simp add: alike_def index_popParents checkGroups_pop)

lemma walker_alike:
  "\<forall>q. alike options parents q \<longrightarrow>
     fst (marshalObject ext options data groupsSet parents embeddedParents)
       = fst (marshalObject ext options data groupsSet q embeddedParents)"
  "\<forall>q. alike options parents q \<longrightarrow>
     fst (marshalFields ext options groupsSet embeddedParents fs dest parents)
       = fst (marshalFields ext options groupsSet embeddedParents fs dest q)"
  "\<forall>q. alike options parents q \<longrightarrow>
     fst (marshalValue ext options v groupsSet parents embeddedParents)
       = fst (marshalValue ext options v groupsSet q embeddedParents)"
  "\<forall>q. alike options parents q \<longrightarrow>
     fst (marshalSlice ext options groupsSet embeddedParents xs sdest parents)
       = fst (marshalSlice ext options groupsSet embeddedParents xs sdest q)"
  "\<forall>q. alike options parents q \<longrightarrow>
     fst (marshalMap ext options groupsSet embeddedParents kt es mdest parents)
       = fst (marshalMap ext options groupsSet embeddedParents kt es mdest q)"
proof (induction ext options data groupsSet parents embeddedParents
    and ext options groupsSet embeddedParents fs dest parents
    and ext options v groupsSet parents embeddedParents
    and ext options groupsSet embeddedParents xs sdest parents
    and ext options groupsSet embeddedParents kt es mdest parents
    rule: marshalObject_marshalFields_marshalValue_marshalSlice_marshalMap.induct)
  case (1 ext options data groupsSet parents embeddedParents)
  then show ?case
    by (simp add: marshalObject.simps split: gvalue.splits if_splits)
next
  case (2 ext options groupsSet embeddedParents dest parents)
  then show ?case by simp
next
  case (3 ext options groupsSet embeddedParents f fs dest parents)
  show ?case
  proof (intro allI impI)
    fix q assume pq: "alike options parents q"
    show "fst (marshalFields ext options groupsSet embeddedParents (f # fs) dest parents)
       = fst (marshalFields ext options groupsSet embeddedParents (f # fs) dest q)"
    proof (cases "skipped f")
      case True
      with 3 pq show ?thesis by simp
    next
      case sk: False
      show ?thesis
      proof (cases "shouldShowFromSince ext options f")
        case (Inl r)
        with sk show ?thesis by simp
      next
        case si: (Inr b)
        show ?thesis
        proof (cases "shouldShowFromUntil ext options f")
          case (Inl r)
          with sk si show ?thesis by simp
        next
          case un: (Inr ba)
          let ?names = "groupNames options parents f"
          have names: "groupNames options q f = ?names"
            using pq by (simp add: alike_groupNames)
          obtain r y where call: "marshalValue ext options (fieldVal f) groupsSet
              (pushParents options f ?names parents) (isEmbeddedField f) = (r, y)"
            by (cases "marshalValue ext options (fieldVal f) groupsSet
              (pushParents options f ?names parents) (isEmbeddedField f)")
          obtain r' y' where call': "marshalValue ext options (fieldVal f) groupsSet
              (pushParents options f ?names q) (isEmbeddedField f) = (r', y')"
            by (cases "marshalValue ext options (fieldVal f) groupsSet
              (pushParents options f ?names q) (isEmbeddedField f)")
          have push: "alike options (pushParents options f ?names parents)
              (pushParents options f ?names q)"
            using pq by (rule alike_push)
          from "3.IH"(2) [OF sk si un] push call call' have rr: "r' = r"
            by fastforce
          show ?thesis
          proof (cases r)
            case (Panic p)
            with sk si un call call' rr names show ?thesis by simp
          next
            case (Error err)
            with sk si un call call' rr names show ?thesis by simp
          next
            case (Return x1)
            from call Return walker_steady(3) [of ext options "fieldVal f" groupsSet
                "pushParents options f ?names parents" "isEmbeddedField f"]
            have "alike options (pushParents options f ?names parents) y"
              by (simp add: steady_alike)
            moreover
            from call' Return rr walker_steady(3) [of ext options "fieldVal f" groupsSet
                "pushParents options f ?names q" "isEmbeddedField f"]
            have "alike options (pushParents options f ?names q) y'"
              by (simp add: steady_alike)
            ultimately have "alike options y y'"
              using push by (blast intro: alike_sym alike_trans)
            then have pop: "alike options (popParents options f ?names y)
                (popParents options f ?names y')"
              by (rule alike_pop)
            from "3.IH"(3) [OF sk si un call [symmetric] Return] pop
            have "fst (marshalFields ext options groupsSet embeddedParents fs
                (if shouldShowFromGroup options groupsSet parents embeddedParents
                     (isEmbeddedField f) f \<and> b \<and> ba
                 then store (isEmbeddedField f) (jsonTag f) x1 dest else dest)
                (popParents options f ?names y))
              = fst (marshalFields ext options groupsSet embeddedParents fs
                (if shouldShowFromGroup options groupsSet parents embeddedParents
                     (isEmbeddedField f) f \<and> b \<and> ba
                 then store (isEmbeddedField f) (jsonTag f) x1 dest else dest)
                (popParents options f ?names y'))"
              by blast
            with sk si un call call' rr names Return
              alike_shouldShowFromGroup [OF pq, of groupsSet embeddedParents "isEmbeddedField f" f]
            show ?thesis by simp
          qed
        qed
      qed
    qed
  qed
next
  case (4 ext options v groupsSet parents embeddedParents)
  show ?case
  proof (cases "IsValid v \<and> capability_of (Interface_of v) = Plain")
    case False
    then show ?thesis
      by (cases "capability_of (Interface_of v)") (auto simp: marshalValue.simps)
  next
    case True
    then have plain: "\<not> \<not> IsValid v" "capability_of (Interface_of v) \<noteq> SelfMarshalling"
      "capability_of (Interface_of v) \<noteq> SelfDescribing"
      by simp_all
    show ?thesis
    proof (cases "if Kind v = Ptr then Elem v else v")
      case (VInterface x)
      with True have "\<And>q. marshalValue ext options v groupsSet q embeddedParents
          = marshalObject ext options x groupsSet q embeddedParents"
        by (simp add: marshalValue.simps)
      with "4.IH"(1) [OF plain VInterface] show ?thesis by simp
    next
      case (VStruct c fs)
      with True have "\<And>q. marshalValue ext options v groupsSet q embeddedParents
          = marshalObject ext options (VStruct c fs) groupsSet q embeddedParents"
        by (simp add: marshalValue.simps)
      with "4.IH"(2) [OF plain VStruct] show ?thesis by simp
    next
      case (VSlice c xs)
      with True have "\<And>q. marshalValue ext options v groupsSet q embeddedParents
          = marshalSlice ext options groupsSet embeddedParents xs [] q"
        by (simp add: marshalValue.simps)
      with "4.IH"(3) [OF plain VSlice] show ?thesis by simp
    next
      case (VMap c k es)
      show ?thesis
      proof (cases "length es \<noteq> 0 \<and> key_kind k = String")
        case False
        with True VMap show ?thesis
          by (auto simp: marshalValue.simps)
      next
        case yes: True
        with True VMap have "\<And>q. marshalValue ext options v groupsSet q embeddedParents
            = marshalMap ext options groupsSet embeddedParents k es [] q"
          by (simp add: marshalValue.simps)
        with "4.IH"(4) [OF plain VMap] yes show ?thesis by simp
      qed
    qed (use True in \<open>simp_all add: marshalValue.simps\<close>)
  qed
next
  case (5 ext options groupsSet embeddedParents dest parents)
  then show ?case by simp
next
  case (6 ext options groupsSet embeddedParents x xs dest parents)
  show ?case
  proof (intro allI impI)
    fix q assume pq: "alike options parents q"
    obtain r y where call: "marshalValue ext options x groupsSet parents embeddedParents = (r, y)"
      by (cases "marshalValue ext options x groupsSet parents embeddedParents")
    obtain r' y' where call': "marshalValue ext options x groupsSet q embeddedParents = (r', y')"
      by (cases "marshalValue ext options x groupsSet q embeddedParents")
    from "6.IH"(1) pq call call' have rr: "r' = r" by fastforce
    show "fst (marshalSlice ext options groupsSet embeddedParents (x # xs) dest parents)
       = fst (marshalSlice ext options groupsSet embeddedParents (x # xs) dest q)"
    proof (cases r)
      case (Return d)
      from call Return walker_steady(3) [of ext options x groupsSet parents embeddedParents]
      have "alike options parents y" by (simp add: steady_alike)
      moreover
      from call' Return rr walker_steady(3) [of ext options x groupsSet q embeddedParents]
      have "alike options q y'" by (simp add: steady_alike)
      ultimately have "alike options y y'"
        using pq by (blast intro: alike_sym alike_trans)
      with "6.IH"(2) [OF call [symmetric] Return] call call' rr Return
      show ?thesis by simp
    next
      case (Error err)
      with call call' rr show ?thesis by simp
    next
      case (Panic p)
      with call call' rr show ?thesis by simp
    qed
  qed
next
  case (7 ext options groupsSet embeddedParents kt dest parents)
  then show ?case by simp
next
  case (8 ext options groupsSet embeddedParents kt key x es dest parents)
  show ?case
  proof (intro allI impI)
    fix q assume pq: "alike options parents q"
    obtain r y where call: "marshalValue ext options x groupsSet parents embeddedParents = (r, y)"
      by (cases "marshalValue ext options x groupsSet parents embeddedParents")
    obtain r' y' where call': "marshalValue ext options x groupsSet q embeddedParents = (r', y')"
      by (cases "marshalValue ext options x groupsSet q embeddedParents")
    from "8.IH"(1) pq call call' have rr: "r' = r" by fastforce
    show "fst (marshalMap ext options groupsSet embeddedParents kt ((key, x) # es) dest parents)
       = fst (marshalMap ext options groupsSet embeddedParents kt ((key, x) # es) dest q)"
    proof (cases r)
      case (Return d)
      from call Return walker_steady(3) [of ext options x groupsSet parents embeddedParents]
      have "alike options parents y" by (simp add: steady_alike)
      moreover
      from call' Return rr walker_steady(3) [of ext options x groupsSet q embeddedParents]
      have "alike options q y'" by (simp add: steady_alike)
      ultimately have yy: "alike options y y'"
        using pq by (blast intro: alike_sym alike_trans)
      show ?thesis
      proof (cases "kt = StringKey")
        case True
        with "8.IH"(2) [OF call [symmetric] Return True] yy call call' rr Return
        show ?thesis by simp
      next
        case False
        with call call' rr Return show ?thesis by simp
      qed
    next
      case (Error err)
      with call call' rr show ?thesis by simp
    next
      case (Panic p)
      with call call' rr show ?thesis by simp
    qed
  qed
qed

subsection \<open>The loops without the state\<close>

lemma marshalValue_dispatch:
  "marshalValue ext options v groupsSet parents embeddedParents =
     (if \<not> IsValid v then (Return NilNode, parents)
      else if capability_of (Interface_of v) = SelfMarshalling
        then (Marshal_method ext (Interface_of v) options, parents)
      else if capability_of (Interface_of v) = SelfDescribing
        then (Return (Verbatim (Interface_of v)), parents)
      else dispatch ext options (if Kind v = Ptr then Elem v else v) groupsSet parents
             embeddedParents)"
  by (cases "if Kind v = Ptr then Elem v else v")
     (simp_all add: marshalValue.simps dispatch_def)

lemma same_outcome_Return [simp]:
  "same_outcome (Return n) (Return m) = same_tree n m"
  "same_outcome (Return n) (Error e) = False"
  "same_outcome (Return n) (Panic p) = False"
  "same_outcome (Error e) (Return m) = False"
  "same_outcome (Panic p) (Return m) = False"
  "same_outcome (Error e) (Error e') = True"
  "same_outcome (Error e) (Panic p) = True"
  "same_outcome (Panic p) (Error e) = True"
  "same_outcome (Panic p) (Panic p') = True"
  by (simp_all add: same_outcome_def)

lemma marshalSlice_Cons_fst:
  "fst (marshalSlice ext options groupsSet embeddedParents (x # xs) dest parents) =
     (case fst (marshalValue ext options x groupsSet parents embeddedParents) of
        Return d \<Rightarrow> fst (marshalSlice ext options groupsSet embeddedParents xs (dest @ [d]) parents)
      | r \<Rightarrow> r)"
proof -
  obtain r y where call: "marshalValue ext options x groupsSet parents embeddedParents = (r, y)"
    by (cases "marshalValue ext options x groupsSet parents embeddedParents")
  show ?thesis
  proof (cases r)
    case (Return d)
    with call walker_steady(3) [of ext options x groupsSet parents embeddedParents]
    have "alike options y parents"
      by (simp add: steady_alike alike_sym)
    with walker_alike(4) [of options y ext groupsSet embeddedParents xs "dest @ [d]"] call Return
    show ?thesis by simp
  qed (use call in simp_all)
qed

lemma marshalMap_Cons_fst:
  "fst (marshalMap ext options groupsSet embeddedParents kt ((key, x) # es) dest parents) =
     (case fst (marshalValue ext options x groupsSet parents embeddedParents) of
        Return d \<Rightarrow>
          (if kt = StringKey
           then fst (marshalMap ext options groupsSet embeddedParents kt es
                       (AList.update key d dest) parents)
           else Panic KeyNotString)
      | r \<Rightarrow> r)"
proof -
  obtain r y where call: "marshalValue ext options x groupsSet parents embeddedParents = (r, y)"
    by (cases "marshalValue ext options x groupsSet parents embeddedParents")
  show ?thesis
  proof (cases r)
    case (Return d)
    with call walker_steady(3) [of ext options x groupsSet parents embeddedParents]
    have "alike options y parents"
      by (simp add: steady_alike alike_sym)
    with walker_alike(5) [of options y ext groupsSet embeddedParents kt es
        "AList.update key d dest"] call Return
    show ?thesis by auto
  qed (use call in simp_all)
qed

lemma marshalFields_Cons_fst:
  assumes "\<not> skipped f"
    and "shouldShowFromSince ext options f = Inr fromSince"
    and "shouldShowFromUntil ext options f = Inr fromUntil"
  shows "fst (marshalFields ext options groupsSet embeddedParents (f # fs) dest parents) =
     (case fst (marshalValue ext options (fieldVal f) groupsSet
                  (pushParents options f (groupNames options parents f) parents)
                  (isEmbeddedField f)) of
        Return v \<Rightarrow>
          fst (marshalFields ext options groupsSet embeddedParents fs
                 (if shouldShowFromGroup options groupsSet parents embeddedParents
                       (isEmbeddedField f) f \<and> fromSince \<and> fromUntil
                  then store (isEmbeddedField f) (jsonTag f) v dest else dest)
                 parents)
      | r \<Rightarrow> r)"
proof -
  obtain r y where call: "marshalValue ext options (fieldVal f) groupsSet
      (pushParents options f (groupNames options parents f) parents) (isEmbeddedField f) = (r, y)"
    by (cases "marshalValue ext options (fieldVal f) groupsSet
      (pushParents options f (groupNames options parents f) parents) (isEmbeddedField f)")
  show ?thesis
  proof (cases r)
    case (Return v)
    with call walker_steady(3) [of ext options "fieldVal f" groupsSet
        "pushParents options f (groupNames options parents f) parents" "isEmbeddedField f"]
    have "steady options (pushParents options f (groupNames options parents f) parents) y"
      by simp
    then have "steady options parents (popParents options f (groupNames options parents f) y)"
      by (rule steady_sandwich)
    then have "alike options (popParents options f (groupNames options parents f) y) parents"
      by (simp add: steady_alike alike_sym)
    with walker_alike(2) [of options "popParents options f (groupNames options parents f) y"
        ext groupsSet embeddedParents fs] call Return assms
    show ?thesis by simp
  qed (use call assms in simp_all)
qed

subsection \<open>What equal values share\<close>

lemma map_of_None_all: "(\<forall>key. map_of es key = None) = (es = [])"
  by (cases es) (auto simp: fun_eq_iff)

lemma same_value_IsValid: "same_value x y \<Longrightarrow> IsValid x = IsValid y"
  by (erule same_value.cases) simp_all

lemma same_value_Kind: "same_value x y \<Longrightarrow> Kind x = Kind y"
  by (erule same_value.cases) simp_all

lemma same_value_Elem: "same_value x y \<Longrightarrow> same_value (Elem x) (Elem y)"
  by (erule same_value.cases) (simp_all add: same_Invalid)

lemma same_value_Interface_of:
  "same_value x y \<Longrightarrow> same_value (Interface_of x) (Interface_of y)"
  by (erule same_value.cases) (simp_all add: same_value.intros)

lemma same_value_capability: "same_value x y \<Longrightarrow> capability_of x = capability_of y"
  by (erule same_value.cases) simp_all

lemma same_value_empty_map:
  assumes "\<forall>key. rel_option same_value (map_of es key) (map_of es' key)"
  shows "(es = []) = (es' = [])"
proof -
  have "(\<forall>key. map_of es key = None) = (\<forall>key. map_of es' key = None)"
    using assms by (metis option.rel_distinct(1) option.rel_distinct(2) option.exhaust)
  then show ?thesis by (simp add: map_of_None_all)
qed

lemma same_value_isEmptyValue: "same_value x y \<Longrightarrow> isEmptyValue x = isEmptyValue y"
proof (erule same_value.cases, goal_cases)
  case (5 x' y')
  then show ?case by (simp add: same_value_IsValid)
next
  case (7 xs ys c)
  then show ?case by (cases xs; cases ys) simp_all
next
  case (8 es es' c k)
  then show ?case using same_value_empty_map [of es es'] by simp
qed simp_all

lemma same_value_deref:
  "same_value x y \<Longrightarrow>
   same_value (if Kind x = Ptr then Elem x else x) (if Kind y = Ptr then Elem y else y)"
  by (simp add: same_value_Kind [of x y] same_value_Elem)

lemma same_field_facts:
  assumes "same_tags f f'" and "same_value (Val f) (Val f')"
  shows "skipped f = skipped f'" "jsonTag f = jsonTag f'"
    "shouldShowFromSince ext options f = shouldShowFromSince ext options f'"
    "shouldShowFromUntil ext options f = shouldShowFromUntil ext options f'"
    "isEmbeddedField f = isEmbeddedField f'"
    "groupNames options p f = groupNames options p f'"
    "shouldShowFromGroup options groupsSet p emb e f = shouldShowFromGroup options groupsSet p emb e f'"
    "pushParents options f names p = pushParents options f' names p"
    "same_value (fieldVal f) (fieldVal f')"
proof -
  from assms(2) have k: "Kind (Val f) = Kind (Val f')"
    and i: "IsValid (Val f) = IsValid (Val f')"
    and e: "isEmptyValue (Val f) = isEmptyValue (Val f')"
    by (simp_all add: same_value_Kind same_value_IsValid same_value_isEmptyValue)
  from assms(2) show fv: "same_value (fieldVal f) (fieldVal f')"
    unfolding fieldVal_def by (rule same_value_deref)
  show j: "jsonTag f = jsonTag f'"
    using assms(1) by (simp add: jsonTag_def same_tags_def)
  show "skipped f = skipped f'"
    using assms(1) i e j by (simp add: skipped_def same_tags_def)
  from assms(1) have tags: "since f = since f'" "until f = until f'" "groups f = groups f'"
    by (simp_all add: same_tags_def)
  show "shouldShowFromSince ext options f = shouldShowFromSince ext options f'"
    by (simp only: shouldShowFromSince_def tags)
  show "shouldShowFromUntil ext options f = shouldShowFromUntil ext options f'"
    by (simp only: shouldShowFromUntil_def tags)
  show em: "isEmbeddedField f = isEmbeddedField f'"
    using assms(1) same_value_Kind [OF fv] by (simp add: isEmbeddedField_def same_tags_def)
  show g: "groupNames options p f = groupNames options p f'"
    by (simp only: groupNames_def tags)
  show "shouldShowFromGroup options groupsSet p emb e f = shouldShowFromGroup options groupsSet p emb e f'"
    by (simp only: shouldShowFromGroup_def g)
  show "pushParents options f names p = pushParents options f' names p"
    using em by (simp add: pushParents_def)
qed

subsection \<open>Equal output maps\<close>

lemma same_tree_MapNode: "same_tree (MapNode a) (MapNode b) = same_dest a b"
  by (auto simp: same_dest_def intro: same_tree.intros elim: same_tree.cases)

lemma same_dest_Nil: "same_dest [] []"
  by (simp add: same_dest_def)

lemma same_dest_update:
  "same_dest a b \<Longrightarrow> same_tree v w \<Longrightarrow> same_dest (AList.update k v a) (AList.update k w b)"
  by (simp add: same_dest_def distinct_update update_conv')

lemma distinct_fold_update:
  "distinct (map fst dest) \<Longrightarrow>
   distinct (map fst (fold (\<lambda>(k, w). AList.update k w) m dest))"
  by (induction m arbitrary: dest) (auto simp: distinct_update)

lemma same_dest_merge:
  assumes "same_dest a b" and "same_dest m m'"
  shows "same_dest (fold (\<lambda>(k, w). AList.update k w) m a) (fold (\<lambda>(k, w). AList.update k w) m' b)"
proof -
  from assms have d: "distinct (map fst m)" "distinct (map fst m')"
    and da: "distinct (map fst a)" "distinct (map fst b)"
    by (simp_all add: same_dest_def)
  have "rel_option same_tree ((map_of a ++ map_of m) key) ((map_of b ++ map_of m') key)" for key
    using assms
    by (cases "map_of m key"; cases "map_of m' key")
       (auto simp: same_dest_def map_add_def dest: spec [of _ key])
  then show ?thesis
    using d da by (simp add: same_dest_def map_of_fold_update distinct_fold_update)
qed

lemma same_dest_store:
  assumes "same_dest a b" and "same_tree v w"
  shows "same_dest (store e key v a) (store e key w b)"
  using assms(2)
proof cases
  case (same_MapNode m m')
  then have "same_dest m m'" by (simp add: same_dest_def)
  with assms same_MapNode show ?thesis
    by (simp add: store_def same_dest_merge same_dest_update)
qed (use assms in \<open>simp_all add: store_def same_dest_update\<close>)

subsection \<open>Whether a call fails\<close>

text \<open>
  The error or the panic of a call of the walker, and whether there is one, is the same
  for all \<^verbatim>\<open>groups\<close>, parents, \<^verbatim>\<open>embeddedParents\<close> and
  \<^verbatim>\<open>dest\<close>: these decide what is stored, not what is walked.
\<close>

lemma failure_simps [simp]:
  "failure (Return n) = None" "failure (Error e) = Some (Error e)"
  "failure (Panic p) = Some (Panic p)"
  by (simp_all add: failure_def)

lemma failure_version_check:
  "shouldShowFromSince ext options f = Inl r \<Longrightarrow> failure r = Some r"
  "shouldShowFromUntil ext options f = Inl r \<Longrightarrow> failure r = Some r"
  by (auto simp: shouldShowFromSince_def shouldShowFromUntil_def split: if_splits option.splits)

lemma walker_failure:
  "\<forall>gs q emb. failure (fst (marshalObject ext options data gs q emb))
     = failure (fst (marshalObject ext options data groupsSet parents embeddedParents))"
  "\<forall>gs q emb d. failure (fst (marshalFields ext options gs emb fs d q))
     = failure (fst (marshalFields ext options groupsSet embeddedParents fs dest parents))"
  "\<forall>gs q emb. failure (fst (marshalValue ext options v gs q emb))
     = failure (fst (marshalValue ext options v groupsSet parents embeddedParents))"
  "\<forall>gs q emb d. failure (fst (marshalSlice ext options gs emb xs d q))
     = failure (fst (marshalSlice ext options groupsSet embeddedParents xs sdest parents))"
  "\<forall>gs q emb d. failure (fst (marshalMap ext options gs emb kt es d q))
     = failure (fst (marshalMap ext options groupsSet embeddedParents kt es mdest parents))"
proof (induction ext options data groupsSet parents embeddedParents
    and ext options groupsSet embeddedParents fs dest parents
    and ext options v groupsSet parents embeddedParents
    and ext options groupsSet embeddedParents xs sdest parents
    and ext options groupsSet embeddedParents kt es mdest parents
    rule: marshalObject_marshalFields_marshalValue_marshalSlice_marshalMap.induct)
  case (1 ext options data groupsSet parents embeddedParents)
  show ?case
  proof (intro allI)
    fix gs q emb
    show "failure (fst (marshalObject ext options data gs q emb))
       = failure (fst (marshalObject ext options data groupsSet parents embeddedParents))"
    proof (cases data)
      case VInvalid
      then show ?thesis by (simp add: marshalObject.simps)
    next
      case (VBase c k b)
      from "1.IH"(1) [OF this, rule_format, of gs q False] VBase show ?thesis
        by (simp add: marshalObject.simps)
    next
      case (VPtr c x)
      show ?thesis
      proof (cases x)
        case (VStruct c' fs)
        from "1.IH"(7) [OF VPtr VStruct, rule_format, of gs emb "[]" q] VPtr VStruct
        show ?thesis by (simp add: marshalObject.simps)
      qed (use "1.IH"(2-6) [OF VPtr, rule_format, where gs = gs and q = q and emb = False]
            "1.IH"(8-9) [OF VPtr, rule_format, where gs = gs and q = q and emb = False] VPtr
           in \<open>simp_all add: marshalObject.simps\<close>)
    next
      case (VNilPtr c k n)
      show ?thesis
      proof (cases "k = Struct")
        case True
        with VNilPtr show ?thesis by (simp add: marshalObject.simps)
      next
        case False
        from "1.IH"(10) [OF VNilPtr False, rule_format, of gs q False] VNilPtr False
        show ?thesis by (simp add: marshalObject.simps)
      qed
    next
      case (VInterface x)
      from "1.IH"(11) [OF this, rule_format, of gs q False] VInterface show ?thesis
        by (simp add: marshalObject.simps)
    next
      case (VStruct c fs)
      from "1.IH"(12) [OF this, rule_format, of gs emb "[]" q] VStruct show ?thesis
        by (simp add: marshalObject.simps)
    next
      case (VSlice c xs)
      from "1.IH"(13) [OF this, rule_format, of gs q False] VSlice show ?thesis
        by (simp add: marshalObject.simps)
    next
      case (VMap c k es)
      from "1.IH"(14) [OF this, rule_format, of gs q False] VMap show ?thesis
        by (simp add: marshalObject.simps)
    qed
  qed
next
  case (2 ext options groupsSet embeddedParents dest parents)
  then show ?case by simp
next
  case (3 ext options groupsSet embeddedParents f fs dest parents)
  show ?case
  proof (intro allI)
    fix gs q emb d
    show "failure (fst (marshalFields ext options gs emb (f # fs) d q))
       = failure (fst (marshalFields ext options groupsSet embeddedParents (f # fs) dest parents))"
    proof (cases "skipped f")
      case True
      with 3 show ?thesis by simp
    next
      case sk: False
      show ?thesis
      proof (cases "shouldShowFromSince ext options f")
        case (Inl r)
        with sk show ?thesis by simp
      next
        case si: (Inr b)
        show ?thesis
        proof (cases "shouldShowFromUntil ext options f")
          case (Inl r)
          with sk si show ?thesis by simp
        next
          case un: (Inr ba)
          obtain r y where call: "marshalValue ext options (fieldVal f) groupsSet
              (pushParents options f (groupNames options parents f) parents)
              (isEmbeddedField f) = (r, y)"
            by (cases "marshalValue ext options (fieldVal f) groupsSet
              (pushParents options f (groupNames options parents f) parents)
              (isEmbeddedField f)")
          obtain r' y' where call': "marshalValue ext options (fieldVal f) gs
              (pushParents options f (groupNames options q f) q) (isEmbeddedField f) = (r', y')"
            by (cases "marshalValue ext options (fieldVal f) gs
              (pushParents options f (groupNames options q f) q) (isEmbeddedField f)")
          from "3.IH"(2) [OF sk si un] call call' have rr: "failure r' = failure r"
            by (metis fst_conv)
          show ?thesis
          proof (cases r)
            case (Return x1)
            with rr obtain x1' where r': "r' = Return x1'"
              by (cases r') simp_all
            from "3.IH"(3) [OF sk si un call [symmetric] Return]
            have "failure (fst (marshalFields ext options gs emb fs
                (if shouldShowFromGroup options gs q emb (isEmbeddedField f) f \<and> b \<and> ba
                 then store (isEmbeddedField f) (jsonTag f) x1' d else d)
                (popParents options f (groupNames options q f) y')))
              = failure (fst (marshalFields ext options groupsSet embeddedParents fs
                (if shouldShowFromGroup options groupsSet parents embeddedParents
                     (isEmbeddedField f) f \<and> b \<and> ba
                 then store (isEmbeddedField f) (jsonTag f) x1 dest else dest)
                (popParents options f (groupNames options parents f) y)))"
              by blast
            with sk si un call call' Return r' show ?thesis by simp
          next
            case (Error err)
            with rr have "r' = Error err" by (cases r') simp_all
            with sk si un call call' Error show ?thesis by simp
          next
            case (Panic p)
            with rr have "r' = Panic p" by (cases r') simp_all
            with sk si un call call' Panic show ?thesis by simp
          qed
        qed
      qed
    qed
  qed
next
  case (4 ext options v groupsSet parents embeddedParents)
  show ?case
  proof (cases "IsValid v \<and> capability_of (Interface_of v) = Plain")
    case False
    then show ?thesis
      by (cases "capability_of (Interface_of v)") (auto simp: marshalValue.simps)
  next
    case True
    then have plain: "\<not> \<not> IsValid v" "capability_of (Interface_of v) \<noteq> SelfMarshalling"
      "capability_of (Interface_of v) \<noteq> SelfDescribing"
      by simp_all
    show ?thesis
    proof (cases "if Kind v = Ptr then Elem v else v")
      case (VInterface x)
      with True have "\<And>gs q emb. marshalValue ext options v gs q emb
          = marshalObject ext options x gs q emb"
        by (simp add: marshalValue.simps)
      with "4.IH"(1) [OF plain VInterface] show ?thesis by simp
    next
      case (VStruct c fs)
      with True have "\<And>gs q emb. marshalValue ext options v gs q emb
          = marshalObject ext options (VStruct c fs) gs q emb"
        by (simp add: marshalValue.simps)
      with "4.IH"(2) [OF plain VStruct] show ?thesis by simp
    next
      case (VSlice c xs)
      with True have "\<And>gs q emb. marshalValue ext options v gs q emb
          = marshalSlice ext options gs emb xs [] q"
        by (simp add: marshalValue.simps)
      with "4.IH"(3) [OF plain VSlice] show ?thesis by simp
    next
      case (VMap c k es)
      show ?thesis
      proof (cases "length es \<noteq> 0 \<and> key_kind k = String")
        case False
        with True VMap show ?thesis
          by (auto simp: marshalValue.simps)
      next
        case yes: True
        with True VMap have "\<And>gs q emb. marshalValue ext options v gs q emb
            = marshalMap ext options gs emb k es [] q"
          by (simp add: marshalValue.simps)
        with "4.IH"(4) [OF plain VMap] yes show ?thesis by simp
      qed
    qed (use True in \<open>simp_all add: marshalValue.simps\<close>)
  qed
next
  case (5 ext options groupsSet embeddedParents dest parents)
  then show ?case by simp
next
  case (6 ext options groupsSet embeddedParents x xs dest parents)
  show ?case
  proof (intro allI)
    fix gs q emb d
    obtain r y where call: "marshalValue ext options x groupsSet parents embeddedParents = (r, y)"
      by (cases "marshalValue ext options x groupsSet parents embeddedParents")
    obtain r' y' where call': "marshalValue ext options x gs q emb = (r', y')"
      by (cases "marshalValue ext options x gs q emb")
    from "6.IH"(1) call call' have rr: "failure r' = failure r"
      by (metis fst_conv)
    show "failure (fst (marshalSlice ext options gs emb (x # xs) d q))
       = failure (fst (marshalSlice ext options groupsSet embeddedParents (x # xs) dest parents))"
    proof (cases r)
      case (Return v)
      with rr obtain v' where r': "r' = Return v'"
        by (cases r') simp_all
      from "6.IH"(2) [OF call [symmetric] Return] call call' Return r'
      show ?thesis by simp
    next
      case (Error err)
      with rr have "r' = Error err" by (cases r') simp_all
      with call call' Error show ?thesis by simp
    next
      case (Panic p)
      with rr have "r' = Panic p" by (cases r') simp_all
      with call call' Panic show ?thesis by simp
    qed
  qed
next
  case (7 ext options groupsSet embeddedParents kt dest parents)
  then show ?case by simp
next
  case (8 ext options groupsSet embeddedParents kt key x es dest parents)
  show ?case
  proof (intro allI)
    fix gs q emb d
    obtain r y where call: "marshalValue ext options x groupsSet parents embeddedParents = (r, y)"
      by (cases "marshalValue ext options x groupsSet parents embeddedParents")
    obtain r' y' where call': "marshalValue ext options x gs q emb = (r', y')"
      by (cases "marshalValue ext options x gs q emb")
    from "8.IH"(1) call call' have rr: "failure r' = failure r"
      by (metis fst_conv)
    show "failure (fst (marshalMap ext options gs emb kt ((key, x) # es) d q))
       = failure (fst (marshalMap ext options groupsSet embeddedParents kt ((key, x) # es) dest parents))"
    proof (cases r)
      case (Return v)
      with rr obtain v' where r': "r' = Return v'"
        by (cases r') simp_all
      show ?thesis
      proof (cases "kt = StringKey")
        case True
        from "8.IH"(2) [OF call [symmetric] Return True] call call' Return r' True
        show ?thesis by simp
      next
        case False
        with call call' Return r' show ?thesis by simp
      qed
    next
      case (Error err)
      with rr have "r' = Error err" by (cases r') simp_all
      with call call' Error show ?thesis by simp
    next
      case (Panic p)
      with rr have "r' = Panic p" by (cases r') simp_all
      with call call' Panic show ?thesis by simp
    qed
  qed
qed

lemma stops_at_free:
  "stops_at ext options groupsSet kt x parents embeddedParents = entry_stops ext options kt x"
proof -
  have "failure (fst (marshalValue ext options x groupsSet parents embeddedParents))
      = failure (fst (marshalValue ext options x [] [] False))"
    using walker_failure(3) [of ext options x "[]" "[]" False] by blast
  then show ?thesis
    by (cases "fst (marshalValue ext options x groupsSet parents embeddedParents)";
        cases "fst (marshalValue ext options x [] [] False)")
       (simp_all add: stops_at_def entry_stops_def)
qed

subsection \<open>The loops on equal inputs\<close>

lemma succeeds_simps [simp]:
  "succeeds (Return n)" "\<not> succeeds (Error e)" "\<not> succeeds (Panic p)"
  by (simp_all add: succeeds_def)

lemma node_of_Return [simp]: "node_of (Return n) = n"
  by (simp add: node_of_def)

lemma same_outcome_succeeds: "same_outcome r r' \<Longrightarrow> succeeds r = succeeds r'"
  by (cases r; cases r') simp_all

lemma same_outcome_failures: "\<not> succeeds r \<Longrightarrow> \<not> succeeds r' \<Longrightarrow> same_outcome r r'"
  by (cases r; cases r') simp_all

lemma succeeds_Return: "succeeds r \<Longrightarrow> r = Return (node_of r)"
  by (cases r) simp_all

lemma same_result_simps [simp]:
  "same_result (Return n) (Return m) = same_tree n m"
  "same_result (Return n) (Error e) = False"
  "same_result (Return n) (Panic p) = False"
  "same_result (Error e) (Return m) = False"
  "same_result (Panic p) (Return m) = False"
  "same_result (Error e) (Error e') = same_error e e'"
  "same_result (Error e) (Panic p) = False"
  "same_result (Panic p) (Error e) = False"
  "same_result (Panic p) (Panic p') = (p = p')"
  by (simp_all add: same_result_def)

lemma same_result_outcome: "same_result r r' \<Longrightarrow> same_outcome r r'"
  by (cases r; cases r') simp_all

lemma related_simps [simp]:
  "related strict (Return n) (Return m) = same_tree n m"
  "related strict (Return n) (Error e) = False"
  "related strict (Return n) (Panic p) = False"
  "related strict (Error e) (Return m) = False"
  "related strict (Panic p) (Return m) = False"
  "related strict (Panic p) (Panic p)"
  "related strict (Error (VersionParseError s)) (Error (VersionParseError s))"
  by (simp_all add: related_def)

lemma related_succeeds: "related strict r r' \<Longrightarrow> succeeds r = succeeds r'"
  by (cases r; cases r') (simp_all add: related_def split: if_splits)

lemma related_node_of:
  "related strict r r' \<Longrightarrow> succeeds r \<Longrightarrow> same_tree (node_of r) (node_of r')"
  by (cases r; cases r') (simp_all add: related_def split: if_splits)

lemma related_failures:
  "\<not> strict \<Longrightarrow> \<not> succeeds r \<Longrightarrow> \<not> succeeds r' \<Longrightarrow> related strict r r'"
  by (simp add: related_def same_outcome_failures)

lemma related_invalid_type:
  "same_value d d' \<Longrightarrow>
   related strict (Error (MarshalInvalidTypeError k d)) (Error (MarshalInvalidTypeError k d'))"
  by (simp add: related_def)

lemma version_check_related:
  "shouldShowFromSince ext options f = Inl r \<Longrightarrow> related strict r r"
  "shouldShowFromUntil ext options f = Inl r \<Longrightarrow> related strict r r"
  by (auto simp: shouldShowFromSince_def shouldShowFromUntil_def
      split: if_splits option.splits)

lemma slice_agree:
  assumes "list_all2 (agreeV strict ext options groupsSet) xs ys" and "list_all2 same_tree d d'"
  shows "related strict (fst (marshalSlice ext options groupsSet emb xs d p))
           (fst (marshalSlice ext options groupsSet emb ys d' p))"
  using assms
proof (induction arbitrary: d d' rule: list_all2_induct)
  case Nil
  then show ?case by (simp add: same_SliceNode)
next
  case (Cons x xs y ys)
  let ?r = "fst (marshalValue ext options x groupsSet p emb)"
  let ?r' = "fst (marshalValue ext options y groupsSet p emb)"
  from Cons.hyps(1) have o: "related strict ?r ?r'"
    by (simp add: agreeV_def)
  show ?case
  proof (cases "succeeds ?r")
    case True
    then obtain v where rv: "?r = Return v" by (auto simp: succeeds_def)
    with o obtain v' where rv': "?r' = Return v'" and t: "same_tree v v'"
      by (cases ?r') simp_all
    from Cons.prems t have "list_all2 same_tree (d @ [v]) (d' @ [v'])"
      by (simp add: list_all2_appendI)
    from Cons.IH [OF this] show ?thesis
      unfolding marshalSlice_Cons_fst rv rv' by simp
  next
    case False
    with o have f': "\<not> succeeds ?r'" by (simp add: related_succeeds)
    from False f' o show ?thesis
      unfolding marshalSlice_Cons_fst by (cases ?r; cases ?r') simp_all
  qed
qed

lemma fields_agree:
  assumes "list_all2 (\<lambda>f f'. same_tags f f' \<and> same_value (Val f) (Val f')
              \<and> agree strict ext options groupsSet (Val f) (Val f')) fs fs'"
    and "same_dest d d'"
  shows "related strict (fst (marshalFields ext options groupsSet emb fs d p))
           (fst (marshalFields ext options groupsSet emb fs' d' p))"
  using assms
proof (induction arbitrary: d d' rule: list_all2_induct)
  case Nil
  then show ?case by (simp add: same_tree_MapNode)
next
  case (Cons f fs f' fs')
  from Cons.hyps(1) have tags: "same_tags f f'" and val: "same_value (Val f) (Val f')"
    and ag: "agree strict ext options groupsSet (Val f) (Val f')"
    by simp_all
  note facts = same_field_facts [OF tags val]
  show ?case
  proof (cases "skipped f")
    case True
    with facts(1) Cons.IH [OF Cons.prems] show ?thesis by simp
  next
    case sk: False
    then have sk': "\<not> skipped f'" using facts(1) by simp
    show ?thesis
    proof (cases "shouldShowFromSince ext options f")
      case (Inl r)
      with facts(3) [of ext options] have "shouldShowFromSince ext options f' = Inl r"
        by simp
      with sk sk' Inl version_check_related(1) [OF Inl, of strict]
      show ?thesis by simp
    next
      case si: (Inr b)
      then have si': "shouldShowFromSince ext options f' = Inr b"
        using facts(3) [of ext options] by simp
      show ?thesis
      proof (cases "shouldShowFromUntil ext options f")
        case (Inl r)
        with facts(4) [of ext options] have "shouldShowFromUntil ext options f' = Inl r"
          by simp
        with si si' sk sk' Inl version_check_related(2) [OF Inl, of strict]
        show ?thesis by simp
      next
        case un: (Inr ba)
        then have un': "shouldShowFromUntil ext options f' = Inr ba"
          using facts(4) [of ext options] by simp
        let ?push = "pushParents options f (groupNames options p f) p"
        let ?r = "fst (marshalValue ext options (fieldVal f) groupsSet ?push (isEmbeddedField f))"
        let ?r' = "fst (marshalValue ext options (fieldVal f') groupsSet ?push (isEmbeddedField f))"
        let ?vis = "shouldShowFromGroup options groupsSet p emb (isEmbeddedField f) f \<and> b \<and> ba"
        from ag have o: "related strict ?r ?r'"
          by (simp add: agree_def agreeV_def fieldVal_def same_value_Kind [OF val])
        have eqs: "isEmbeddedField f' = isEmbeddedField f" "jsonTag f' = jsonTag f"
          "groupNames options p f' = groupNames options p f"
          "shouldShowFromGroup options groupsSet p emb (isEmbeddedField f) f'
             = shouldShowFromGroup options groupsSet p emb (isEmbeddedField f) f"
          "pushParents options f' (groupNames options p f) p = ?push"
          using facts(2) facts(5) facts(6) [of options p]
            facts(7) [of options groupsSet p emb "isEmbeddedField f"]
            facts(8) [of options "groupNames options p f" p]
          by simp_all
        have step: "fst (marshalFields ext options groupsSet emb (f # fs) d p) =
            (case ?r of
               Return v \<Rightarrow>
                 fst (marshalFields ext options groupsSet emb fs
                   (if ?vis then store (isEmbeddedField f) (jsonTag f) v d else d) p)
             | r \<Rightarrow> r)"
          by (rule marshalFields_Cons_fst [OF sk si un])
        have step': "fst (marshalFields ext options groupsSet emb (f' # fs') d' p) =
            (case ?r' of
               Return v \<Rightarrow>
                 fst (marshalFields ext options groupsSet emb fs'
                   (if ?vis then store (isEmbeddedField f) (jsonTag f) v d' else d') p)
             | r \<Rightarrow> r)"
          using marshalFields_Cons_fst [OF sk' si' un', of groupsSet emb fs' d' p]
          unfolding eqs .
        show ?thesis
        proof (cases "succeeds ?r")
          case True
          then obtain v where rv: "?r = Return v" by (auto simp: succeeds_def)
          with o obtain v' where rv': "?r' = Return v'" and t: "same_tree v v'"
            by (cases ?r') simp_all
          have "same_dest (if ?vis then store (isEmbeddedField f) (jsonTag f) v d else d)
              (if ?vis then store (isEmbeddedField f) (jsonTag f) v' d' else d')"
            using Cons.prems t by (simp add: same_dest_store)
          from Cons.IH [OF this] show ?thesis
            unfolding step step' rv rv' by simp
        next
          case False
          with o have f': "\<not> succeeds ?r'" by (simp add: related_succeeds)
          from False f' o show ?thesis
            unfolding step step' by (cases ?r; cases ?r') simp_all
        qed
      qed
    qed
  qed
qed

lemma map_fail:
  "\<exists>e\<in>set es. \<not> succeeds (fst (marshalValue ext options (snd e) groupsSet p emb)) \<Longrightarrow>
   \<not> succeeds (fst (marshalMap ext options groupsSet emb kt es dest p))"
proof (induction es arbitrary: dest)
  case Nil
  then show ?case by simp
next
  case (Cons e es)
  obtain k x where e: "e = (k, x)" by (cases e)
  show ?case
  proof (cases "fst (marshalValue ext options x groupsSet p emb)")
    case (Return d)
    with Cons.prems e have "\<exists>e\<in>set es. \<not> succeeds (fst (marshalValue ext options (snd e) groupsSet p emb))"
      by simp
    from Cons.IH [OF this] Return e show ?thesis
      unfolding e marshalMap_Cons_fst by auto
  next
    case (Error err)
    then show ?thesis unfolding e marshalMap_Cons_fst by simp
  next
    case (Panic pn)
    then show ?thesis unfolding e marshalMap_Cons_fst by simp
  qed
qed

lemma stops_at_fails: "stops_at ext options groupsSet kt x p emb = Some r \<Longrightarrow> \<not> succeeds r"
  by (cases "fst (marshalValue ext options x groupsSet p emb)")
     (auto simp: stops_at_def split: if_splits)

lemma stops_at_None:
  "(stops_at ext options groupsSet kt x p emb = None) =
     (succeeds (fst (marshalValue ext options x groupsSet p emb)) \<and> kt = StringKey)"
  by (cases "fst (marshalValue ext options x groupsSet p emb)")
     (auto simp: stops_at_def)

lemma marshalMap_Cons_stops:
  "fst (marshalMap ext options groupsSet emb kt ((key, x) # es) dest p) =
     (case stops_at ext options groupsSet kt x p emb of
        None \<Rightarrow>
          fst (marshalMap ext options groupsSet emb kt es
                 (AList.update key (node_of (fst (marshalValue ext options x groupsSet p emb))) dest)
                 p)
      | Some r \<Rightarrow> r)"
  unfolding marshalMap_Cons_fst
  by (cases "fst (marshalValue ext options x groupsSet p emb)") (simp_all add: stops_at_def)

lemma map_stopped:
  "\<exists>e\<in>set es. stops_at ext options groupsSet kt (snd e) p emb \<noteq> None \<Longrightarrow>
   \<exists>e\<in>set es. stops_at ext options groupsSet kt (snd e) p emb
      = Some (fst (marshalMap ext options groupsSet emb kt es dest p))"
proof (induction es arbitrary: dest)
  case Nil
  then show ?case by simp
next
  case (Cons e es)
  obtain k x where e: "e = (k, x)" by (cases e)
  show ?case
  proof (cases "stops_at ext options groupsSet kt x p emb")
    case None
    with Cons.prems e
    have "\<exists>e\<in>set es. stops_at ext options groupsSet kt (snd e) p emb \<noteq> None"
      by simp
    from Cons.IH [OF this] None show ?thesis
      unfolding e marshalMap_Cons_stops by simp
  next
    case (Some r)
    then show ?thesis
      unfolding e marshalMap_Cons_stops by simp
  qed
qed

lemma map_through:
  "\<forall>e\<in>set es. stops_at ext options groupsSet kt (snd e) p emb = None \<Longrightarrow>
   fst (marshalMap ext options groupsSet emb kt es dest p) =
     Return (MapNode (fold (\<lambda>(k, w). AList.update k w)
       (map (\<lambda>(k, x). (k, node_of (fst (marshalValue ext options x groupsSet p emb)))) es)
       dest))"
proof (induction es arbitrary: dest)
  case Nil
  then show ?case by simp
next
  case (Cons e es)
  obtain k x where e: "e = (k, x)" by (cases e)
  from Cons.prems e have n: "stops_at ext options groupsSet kt x p emb = None"
    by simp
  from Cons.prems have "\<forall>e\<in>set es. stops_at ext options groupsSet kt (snd e) p emb = None"
    by simp
  from Cons.IH [OF this] n show ?case
    unfolding e marshalMap_Cons_stops by simp
qed

lemma map_of_map_values:
  "map_of (map (\<lambda>(k, x). (k, g x)) es) key = map_option g (map_of es key)"
  by (induction es) auto

lemma map_agree:
  assumes d: "distinct (map fst es)" and d': "distinct (map fst es')"
    and rel: "\<forall>key. rel_option (\<lambda>x y. same_value x y \<and> agree strict ext options groupsSet x y)
               (map_of es key) (map_of es' key)"
    and one: "strict \<longrightarrow>
      (\<forall>e\<in>set es. \<forall>e'\<in>set es. \<forall>r r'.
         stops_at ext options groupsSet kt (snd e) p emb = Some r \<longrightarrow>
         stops_at ext options groupsSet kt (snd e') p emb = Some r' \<longrightarrow> r = r')"
  shows "related strict (fst (marshalMap ext options groupsSet emb kt es [] p))
           (fst (marshalMap ext options groupsSet emb kt es' [] p))"
proof -
  let ?V = "\<lambda>x. fst (marshalValue ext options x groupsSet p emb)"
  let ?S = "\<lambda>x. stops_at ext options groupsSet kt x p emb"
  have out: "related strict (?V x) (?V y)"
    if "map_of es key = Some x" "map_of es' key = Some y" for key x y
    using rel that by (auto simp: agree_def agreeV_def dest!: spec [of _ key])
  have fwd: "\<exists>y. map_of es' key = Some y" if "map_of es key = Some x" for key x
    using rel that by (cases "map_of es' key") (auto dest!: spec [of _ key])
  have bwd: "\<exists>x. map_of es key = Some x" if "map_of es' key = Some y" for key y
    using rel that by (cases "map_of es key") (auto dest!: spec [of _ key])
  have none: "(?S x = None) = (?S y = None)"
    if "map_of es key = Some x" "map_of es' key = Some y" for key x y
    using related_succeeds [OF out [OF that]] by (simp add: stops_at_None)
  have some: "related strict r r'"
    if "map_of es key = Some x" "map_of es' key = Some y" "?S x = Some r" "?S y = Some r'"
    for key x y r r'
    using out [OF that(1) that(2)] that(3) that(4)
    by (cases "?V x"; cases "?V y") (auto simp: stops_at_def split: if_splits)
  show ?thesis
  proof (cases "\<forall>e\<in>set es. ?S (snd e) = None")
    case True
    have all': "\<forall>e\<in>set es'. ?S (snd e) = None"
    proof
      fix e assume "e \<in> set es'"
      then have m: "map_of es' (fst e) = Some (snd e)"
        using map_of_is_SomeI [OF d', of "fst e" "snd e"] by simp
      then obtain x where x: "map_of es (fst e) = Some x" using bwd by blast
      then have "(fst e, x) \<in> set es" by (rule map_of_SomeD)
      with True have "?S x = None" by force
      with none [OF x m] show "?S (snd e) = None" by simp
    qed
    let ?A = "map (\<lambda>(k, x). (k, node_of (?V x))) es"
    let ?B = "map (\<lambda>(k, x). (k, node_of (?V x))) es'"
    have keys: "map fst ?A = map fst es" "map fst ?B = map fst es'"
      by (simp_all add: case_prod_beta)
    have "rel_option same_tree (map_of ?A key) (map_of ?B key)" for key
    proof (cases "map_of es key")
      case None
      with rel have "map_of es' key = None"
        by (cases "map_of es' key") (auto dest!: spec [of _ key])
      with None show ?thesis by (simp add: map_of_map_values)
    next
      case (Some x)
      then obtain y where y: "map_of es' key = Some y" using fwd by blast
      from Some have "(key, x) \<in> set es" by (rule map_of_SomeD)
      with True have "?S x = None" by force
      then have "succeeds (?V x)" by (simp add: stops_at_None)
      with out [OF Some y] have "same_tree (node_of (?V x)) (node_of (?V y))"
        by (simp add: related_node_of)
      with Some y show ?thesis by (simp add: map_of_map_values)
    qed
    then have pt: "\<forall>key. rel_option same_tree (map_of ?A key) (map_of ?B key)" ..
    have dA: "distinct (map fst ?A)" unfolding keys by (rule d)
    have dB: "distinct (map fst ?B)" unfolding keys by (rule d')
    have "same_dest (fold (\<lambda>(k, w). AList.update k w) ?A [])
        (fold (\<lambda>(k, w). AList.update k w) ?B [])"
      unfolding same_dest_def map_of_fold_update [OF dA] map_of_fold_update [OF dB]
      using pt distinct_fold_update [of "[]" ?A] distinct_fold_update [of "[]" ?B]
      by simp
    then show ?thesis
      by (simp add: map_through [OF True] map_through [OF all'] same_tree_MapNode)
  next
    case False
    then have ex: "\<exists>e\<in>set es. ?S (snd e) \<noteq> None" by simp
    from map_stopped [OF ex, of "[]"] obtain e1
      where e1: "e1 \<in> set es"
        "?S (snd e1) = Some (fst (marshalMap ext options groupsSet emb kt es [] p))"
      by blast
    from ex obtain e where e: "e \<in> set es" "?S (snd e) \<noteq> None" by blast
    then have m: "map_of es (fst e) = Some (snd e)"
      using map_of_is_SomeI [OF d, of "fst e" "snd e"] by simp
    then obtain y where y: "map_of es' (fst e) = Some y" using fwd by blast
    then have "(fst e, y) \<in> set es'" by (rule map_of_SomeD)
    moreover from none [OF m y] e(2) have "?S y \<noteq> None" by simp
    ultimately have ex': "\<exists>e\<in>set es'. ?S (snd e) \<noteq> None" by force
    from map_stopped [OF ex', of "[]"] obtain e2'
      where e2': "e2' \<in> set es'"
        "?S (snd e2') = Some (fst (marshalMap ext options groupsSet emb kt es' [] p))"
      by blast
    from e2'(1) have m2': "map_of es' (fst e2') = Some (snd e2')"
      using map_of_is_SomeI [OF d', of "fst e2'" "snd e2'"] by simp
    then obtain x2 where x2: "map_of es (fst e2') = Some x2" using bwd by blast
    then have in2: "(fst e2', x2) \<in> set es" by (rule map_of_SomeD)
    from none [OF x2 m2'] e2'(2) obtain r2 where r2: "?S x2 = Some r2"
      by (cases "?S x2") simp_all
    from some [OF x2 m2' r2 e2'(2)]
    have rel2: "related strict r2 (fst (marshalMap ext options groupsSet emb kt es' [] p))" .
    show ?thesis
    proof (cases strict)
      case True
      with one e1(1) in2 e1(2) r2
      have "fst (marshalMap ext options groupsSet emb kt es [] p) = r2"
        by (metis snd_conv)
      with rel2 show ?thesis by simp
    next
      case False
      from stops_at_fails [OF e1(2)] stops_at_fails [OF e2'(2)] False
      show ?thesis by (rule related_failures [rotated])
    qed
  qed
qed

subsection \<open>Two calls on the same input come to the same\<close>

lemma value_from_dispatch:
  assumes f: "\<forall>v v'. same_value v v' \<longrightarrow>
        related strict (Marshal_method ext v options) (Marshal_method ext v' options)"
    and sv: "same_value x y"
    and d: "\<And>p emb. related strict
        (fst (dispatch ext options (if Kind x = Ptr then Elem x else x) groupsSet p emb))
        (fst (dispatch ext options (if Kind y = Ptr then Elem y else y) groupsSet p emb))"
  shows "agreeV strict ext options groupsSet x y"
proof -
  from sv have i: "same_value (Interface_of x) (Interface_of y)"
    by (rule same_value_Interface_of)
  then have c: "capability_of (Interface_of y) = capability_of (Interface_of x)"
    by (simp add: same_value_capability)
  from sv have v: "IsValid y = IsValid x"
    by (simp add: same_value_IsValid)
  from f i have m: "related strict (Marshal_method ext (Interface_of x) options)
      (Marshal_method ext (Interface_of y) options)"
    by simp
  from sv have k: "Kind y = Kind x"
    by (simp add: same_value_Kind)
  show ?thesis
  proof (cases "Kind x = Ptr")
    case True
    with d k have "\<And>p emb. related strict (fst (dispatch ext options (Elem x) groupsSet p emb))
        (fst (dispatch ext options (Elem y) groupsSet p emb))"
      by simp
    with True i m show ?thesis
      unfolding agreeV_def marshalValue_dispatch c v
      by (simp add: k same_NilNode same_Verbatim)
  next
    case False
    with d k have "\<And>p emb. related strict (fst (dispatch ext options x groupsSet p emb))
        (fst (dispatch ext options y groupsSet p emb))"
      by simp
    with False i m show ?thesis
      unfolding agreeV_def marshalValue_dispatch c v
      by (simp add: k same_NilNode same_Verbatim)
  qed
qed

lemma marshalObject_VPtr:
  "marshalObject ext options (VPtr c x) groupsSet p emb =
     (if Kind x = Struct then marshalObject ext options x groupsSet p emb
      else marshalValue ext options x groupsSet p False)"
  by (cases x) (simp_all add: marshalObject.simps)

lemma marshalValue_Invalid:
  "marshalValue ext options VInvalid groupsSet p emb = (Return NilNode, p)"
  by (simp add: marshalValue.simps)

lemma agreeV_Invalid: "agreeV strict ext options groupsSet VInvalid VInvalid"
  by (simp add: agreeV_def marshalValue_Invalid same_NilNode)

lemma stops_agree_parts:
  "stops_agree ext options (VPtr c x) \<Longrightarrow> stops_agree ext options x"
  "stops_agree ext options (VInterface x) \<Longrightarrow> stops_agree ext options x"
  "stops_agree ext options (VStruct c fs) \<Longrightarrow> \<forall>f\<in>set fs. stops_agree ext options (Val f)"
  "stops_agree ext options (VSlice c xs) \<Longrightarrow> \<forall>x\<in>set xs. stops_agree ext options x"
  "stops_agree ext options (VMap c kt es) \<Longrightarrow> \<forall>e\<in>set es. stops_agree ext options (snd e)"
  "stops_agree ext options (VMap c kt es) \<Longrightarrow>
     \<forall>e\<in>set es. \<forall>e'\<in>set es. \<forall>r r'.
        entry_stops ext options kt (snd e) = Some r \<longrightarrow>
        entry_stops ext options kt (snd e') = Some r' \<longrightarrow> r = r'"
  by (erule stops_agree.cases; simp; fail)+

lemma same_value_agree:
  assumes f: "\<forall>v v'. same_value v v' \<longrightarrow>
        related strict (Marshal_method ext v options) (Marshal_method ext v' options)"
    and sv: "same_value x y"
    and st: "strict \<longrightarrow> stops_agree ext options x"
  shows "agree strict ext options groupsSet x y"
  using sv st
proof (induction rule: same_value.induct)
  case same_Invalid
  show ?case
    by (simp add: agree_def agreeV_Invalid marshalObject.simps dispatch_def)
next
  case (same_Base c k b)
  have v: "agreeV strict ext options groupsSet (VBase c k b) (VBase c k b)"
    by (rule value_from_dispatch [OF f])
       (simp_all add: same_value.same_Base dispatch_def same_Verbatim)
  then show ?case
    by (simp add: agree_def agreeV_Invalid marshalObject.simps dispatch_def
        same_Verbatim same_value.same_Base) (simp add: agreeV_def)
next
  case (same_Ptr x y c)
  then have ag: "agree strict ext options groupsSet x y"
    by (auto dest: stops_agree_parts(1))
  note hyps = same_Ptr(1)
  have v: "agreeV strict ext options groupsSet (VPtr c x) (VPtr c y)"
    by (rule value_from_dispatch [OF f])
       (use ag hyps in \<open>simp_all add: same_value.same_Ptr agree_def\<close>)
  from ag hyps show ?case
    by (simp add: agree_def v marshalObject_VPtr same_value_Kind [of x y] dispatch_def
        same_Verbatim same_value.same_Ptr) (simp add: agreeV_def)
next
  case (same_NilPtr c k n)
  have v: "agreeV strict ext options groupsSet (VNilPtr c k n) (VNilPtr c k n)"
    by (rule value_from_dispatch [OF f])
       (simp_all add: same_value.same_NilPtr dispatch_def)
  then show ?case
    by (simp add: agree_def agreeV_Invalid marshalObject.simps dispatch_def
        same_Verbatim same_value.same_NilPtr same_tree_MapNode same_dest_Nil
        marshalValue_Invalid same_NilNode)
next
  case (same_Interface x y)
  then have ag: "agree strict ext options groupsSet x y"
    by (auto dest: stops_agree_parts(2))
  note hyps = same_Interface(1)
  have d: "related strict (fst (dispatch ext options (VInterface x) groupsSet p emb))
      (fst (dispatch ext options (VInterface y) groupsSet p emb))" for p emb
    using ag by (simp add: dispatch_def agree_def)
  have v: "agreeV strict ext options groupsSet (VInterface x) (VInterface y)"
    by (rule value_from_dispatch [OF f])
       (use d hyps in \<open>simp_all add: same_value.same_Interface\<close>)
  from v d show ?case
    by (simp add: agree_def agreeV_Invalid marshalObject.simps) (simp add: agreeV_def)
next
  case (same_Struct fs fs' c)
  from same_Struct(1) have sv': "same_value (VStruct c fs) (VStruct c fs')"
    by (auto intro!: same_value.same_Struct elim: list_all2_mono)
  from same_Struct(2) have parts: "strict \<longrightarrow> (\<forall>f\<in>set fs. stops_agree ext options (Val f))"
    by (auto dest: stops_agree_parts(3))
  from same_Struct(1) parts
  have all: "list_all2 (\<lambda>f f'. same_tags f f' \<and> same_value (Val f) (Val f')
              \<and> agree strict ext options groupsSet (Val f) (Val f')) fs fs'"
    by (auto elim!: list.rel_mono_strong)
  have o: "related strict (fst (marshalObject ext options (VStruct c fs) groupsSet p emb))
      (fst (marshalObject ext options (VStruct c fs') groupsSet p emb))" for p emb
    using fields_agree [OF all same_dest_Nil] by (simp add: marshalObject.simps)
  have v: "agreeV strict ext options groupsSet (VStruct c fs) (VStruct c fs')"
    by (rule value_from_dispatch [OF f sv']) (use o in \<open>simp add: dispatch_def\<close>)
  from v o show ?case
    by (simp add: agree_def agreeV_Invalid dispatch_def)
next
  case (same_Slice xs ys c)
  from same_Slice(1) have sv': "same_value (VSlice c xs) (VSlice c ys)"
    by (auto intro!: same_value.same_Slice elim: list_all2_mono)
  from same_Slice(2) have parts: "strict \<longrightarrow> (\<forall>x\<in>set xs. stops_agree ext options x)"
    by (auto dest: stops_agree_parts(4))
  from same_Slice(1) parts have "list_all2 (agreeV strict ext options groupsSet) xs ys"
    by (auto elim!: list.rel_mono_strong simp: agree_def)
  then have d: "related strict (fst (dispatch ext options (VSlice c xs) groupsSet p emb))
      (fst (dispatch ext options (VSlice c ys) groupsSet p emb))" for p emb
    using slice_agree [of strict ext options groupsSet xs ys "[]" "[]"] by (simp add: dispatch_def)
  have v: "agreeV strict ext options groupsSet (VSlice c xs) (VSlice c ys)"
    by (rule value_from_dispatch [OF f sv']) (use d in simp)
  from v d show ?case
    by (simp add: agree_def agreeV_Invalid marshalObject.simps) (simp add: agreeV_def)
next
  case (same_Map es es' c k)
  have rel: "\<forall>key. rel_option same_value (map_of es key) (map_of es' key)"
    using same_Map(3) by (auto elim: option.rel_mono_strong)
  with same_Map(1) same_Map(2) have sv': "same_value (VMap c k es) (VMap c k es')"
    by (auto intro!: same_value.same_Map)
  from rel have e: "(es' = []) = (es = [])"
    using same_value_empty_map [of es es'] by simp
  from same_Map(4) have parts: "strict \<longrightarrow> (\<forall>e\<in>set es. stops_agree ext options (snd e))"
    and one: "strict \<longrightarrow>
      (\<forall>e\<in>set es. \<forall>e'\<in>set es. \<forall>r r'.
         entry_stops ext options k (snd e) = Some r \<longrightarrow>
         entry_stops ext options k (snd e') = Some r' \<longrightarrow> r = r')"
    using stops_agree_parts(5) [of ext options c k es]
      stops_agree_parts(6) [of ext options c k es]
    by blast+
  have ag: "rel_option (\<lambda>x y. same_value x y \<and> agree strict ext options groupsSet x y)
      (map_of es key) (map_of es' key)" for key
  proof (cases "map_of es key")
    case None
    with same_Map(3) show ?thesis
      by (cases "map_of es' key") (auto dest!: spec [of _ key])
  next
    case (Some x)
    then have "(key, x) \<in> set es" by (rule map_of_SomeD)
    with parts have "strict \<longrightarrow> stops_agree ext options x" by force
    with same_Map(3) Some show ?thesis
      by (cases "map_of es' key") (auto dest!: spec [of _ key])
  qed
  have d: "related strict (fst (dispatch ext options (VMap c k es) groupsSet p emb))
      (fst (dispatch ext options (VMap c k es') groupsSet p emb))" for p emb
  proof -
    from one have "strict \<longrightarrow>
      (\<forall>e\<in>set es. \<forall>e'\<in>set es. \<forall>r r'.
         stops_at ext options groupsSet k (snd e) p emb = Some r \<longrightarrow>
         stops_at ext options groupsSet k (snd e') p emb = Some r' \<longrightarrow> r = r')"
      unfolding stops_at_free .
    from map_agree [OF same_Map(1) same_Map(2) _ this] ag e sv'
    show ?thesis
      by (simp add: dispatch_def same_NilNode related_invalid_type)
  qed
  have v: "agreeV strict ext options groupsSet (VMap c k es) (VMap c k es')"
    by (rule value_from_dispatch [OF f sv']) (use d in simp)
  from v d show ?case
    by (simp add: agree_def agreeV_Invalid marshalObject.simps) (simp add: agreeV_def)
qed

lemma same_value_refl_text: "same_value (text_of s) (text_of s)"
  by (simp add: text_of_def same_Base)

lemma same_value_one_field:
  "same_value (VInterface (VStruct Plain [Field n a e j g s u (text_of t)]))
     (VInterface (VStruct Plain [Field n a e j g s u (text_of t)]))"
  by (rule same_Interface, rule same_Struct) (simp add: same_tags_def same_value_refl_text)

lemma same_value_twoEntries: "same_value (twoEntries kt s t) (twoEntriesSwapped kt s t)"
  unfolding twoEntries_def twoEntriesSwapped_def sinceExample_def sinceExampleB_def
  by (rule same_Map) (simp_all add: same_value_one_field)

lemma faithful_example: "faithful exampleExtern options"
  by (simp add: faithful_def exampleExtern_def)

lemma exact_example: "exact exampleExtern options"
  by (simp add: exact_def exampleExtern_def)

text \<open>
  C8, as stated, fails: the loop over a keyed mapping returns the error of the first
  failing entry it meets, and the order in which it meets the entries is not fixed. A
  mapping with two entries that both fail to parse gives the one error or the other. And
  when the key type is a defined string type, a mapping with one entry that fails and one
  that does not gives the error of the one or the panic of line 240 after the other.
\<close>

theorem map_order_error_counterexample:
  "same_value (twoEntries StringKey ''soon'' ''later'') (twoEntriesSwapped StringKey ''soon'' ''later'')
   \<and> Marshal exampleExtern exampleOptions (twoEntries StringKey ''soon'' ''later'')
       = Error (VersionParseError ''soon'')
   \<and> Marshal exampleExtern exampleOptions (twoEntriesSwapped StringKey ''soon'' ''later'')
       = Error (VersionParseError ''later'')
   \<and> Marshal exampleExtern exampleOptions (twoEntries (OtherKey String) ''soon'' ''1'')
       = Error (VersionParseError ''soon'')
   \<and> Marshal exampleExtern exampleOptions (twoEntriesSwapped (OtherKey String) ''soon'' ''1'')
       = Panic KeyNotString"
  by (simp add: same_value_twoEntries)
     (simp add: twoEntries_def twoEntriesSwapped_def sinceExample_def sinceExampleB_def walker_defs example_defs)

text \<open>
  C8, amended. Two calls of \<^verbatim>\<open>Marshal\<close> with the same options on the same input,
  whatever the order in which each call meets the entries of the keyed mappings: with
  \<^verbatim>\<open>Marshal\<close> methods that come to the same outcome on the same value, both calls
  fail or both return structurally equal trees; and with \<^verbatim>\<open>Marshal\<close> methods
  that come to the same result on the same value, and an input in which the entries of a
  keyed mapping that end its loop all end it with the same result, both calls return
  structurally equal trees, or the same error, or raise the same panic.
\<close>

theorem marshal_deterministic:
  assumes "same_value x y"
  shows "(faithful ext options \<longrightarrow>
            same_outcome (Marshal ext options x) (Marshal ext options y))
       \<and> (exact ext options \<longrightarrow> stops_agree ext options x \<longrightarrow>
            same_result (Marshal ext options x) (Marshal ext options y))"
proof (intro conjI impI)
  assume "faithful ext options"
  then have "\<forall>v v'. same_value v v' \<longrightarrow>
      related False (Marshal_method ext v options) (Marshal_method ext v' options)"
    by (simp add: faithful_def related_def)
  from same_value_agree [OF this assms, of "incrementGroups [] (Groups options)"]
  show "same_outcome (Marshal ext options x) (Marshal ext options y)"
    by (simp add: agree_def Marshal_def related_def)
next
  assume "exact ext options"
    and st: "stops_agree ext options x"
  then have "\<forall>v v'. same_value v v' \<longrightarrow>
      related True (Marshal_method ext v options) (Marshal_method ext v' options)"
    by (simp add: exact_def related_def)
  from same_value_agree [OF this assms, of "incrementGroups [] (Groups options)"] st
  show "same_result (Marshal ext options x) (Marshal ext options y)"
    by (simp add: agree_def Marshal_def related_def)
qed

lemma stops_agree_twoEntries:
  "stops_agree exampleExtern exampleOptions (twoEntries StringKey ''soon'' ''1'')"
  unfolding twoEntries_def
proof (rule agree_Map)
  show "\<forall>e\<in>set [(''a'', VInterface (VStruct Plain [sinceExample ''soon''])),
          (''b'', VInterface (VStruct Plain [sinceExampleB ''1'']))].
      stops_agree exampleExtern exampleOptions (snd e)"
    by (simp add: sinceExample_def sinceExampleB_def text_of_def agree_Interface agree_Struct
        agree_Base)
next
  have a: "entry_stops exampleExtern exampleOptions StringKey
      (VInterface (VStruct Plain [sinceExample ''soon'']))
      = Some (Error (VersionParseError ''soon''))"
    by (simp add: entry_stops_def sinceExample_def walker_defs example_defs)
  have b: "entry_stops exampleExtern exampleOptions StringKey
      (VInterface (VStruct Plain [sinceExampleB ''1'']))
      = None"
    by (simp add: entry_stops_def sinceExampleB_def walker_defs example_defs)
  show "\<forall>e\<in>set [(''a'', VInterface (VStruct Plain [sinceExample ''soon''])),
          (''b'', VInterface (VStruct Plain [sinceExampleB ''1'']))].
      \<forall>e'\<in>set [(''a'', VInterface (VStruct Plain [sinceExample ''soon''])),
          (''b'', VInterface (VStruct Plain [sinceExampleB ''1'']))].
      \<forall>r r'.
        entry_stops exampleExtern exampleOptions StringKey (snd e) = Some r \<longrightarrow>
        entry_stops exampleExtern exampleOptions StringKey (snd e') = Some r' \<longrightarrow>
        r = r'"
    by (simp add: a b)
qed

text \<open>
  A mapping with two entries that both marshal: the two orders give the entries of the
  output in two orders, and the outputs are structurally equal. A mapping with one entry
  that fails to parse and one that marshals: both orders give the one error.
\<close>

theorem marshal_deterministic_witness:
  "faithful exampleExtern exampleOptions \<and> exact exampleExtern exampleOptions
   \<and> same_value (twoEntries StringKey ''1'' ''2'') (twoEntriesSwapped StringKey ''1'' ''2'')
   \<and> Marshal exampleExtern exampleOptions (twoEntries StringKey ''1'' ''2'')
       = Return (MapNode [(''a'', MapNode [(''A'', Verbatim (text_of ''x''))]),
                          (''b'', MapNode [(''B'', Verbatim (text_of ''y''))])])
   \<and> Marshal exampleExtern exampleOptions (twoEntriesSwapped StringKey ''1'' ''2'')
       = Return (MapNode [(''b'', MapNode [(''B'', Verbatim (text_of ''y''))]),
                          (''a'', MapNode [(''A'', Verbatim (text_of ''x''))])])
   \<and> same_outcome (Marshal exampleExtern exampleOptions (twoEntries StringKey ''1'' ''2''))
        (Marshal exampleExtern exampleOptions (twoEntriesSwapped StringKey ''1'' ''2''))
   \<and> same_value (twoEntries StringKey ''soon'' ''1'') (twoEntriesSwapped StringKey ''soon'' ''1'')
   \<and> stops_agree exampleExtern exampleOptions (twoEntries StringKey ''soon'' ''1'')
   \<and> Marshal exampleExtern exampleOptions (twoEntries StringKey ''soon'' ''1'')
       = Error (VersionParseError ''soon'')
   \<and> Marshal exampleExtern exampleOptions (twoEntriesSwapped StringKey ''soon'' ''1'')
       = Error (VersionParseError ''soon'')
   \<and> same_result (Marshal exampleExtern exampleOptions (twoEntries StringKey ''soon'' ''1''))
        (Marshal exampleExtern exampleOptions (twoEntriesSwapped StringKey ''soon'' ''1''))"
proof -
  have a: "Marshal exampleExtern exampleOptions (twoEntries StringKey ''1'' ''2'')
       = Return (MapNode [(''a'', MapNode [(''A'', Verbatim (text_of ''x''))]),
                          (''b'', MapNode [(''B'', Verbatim (text_of ''y''))])])"
    by (simp add: twoEntries_def sinceExample_def sinceExampleB_def walker_defs example_defs)
  have b: "Marshal exampleExtern exampleOptions (twoEntriesSwapped StringKey ''1'' ''2'')
       = Return (MapNode [(''b'', MapNode [(''B'', Verbatim (text_of ''y''))]),
                          (''a'', MapNode [(''A'', Verbatim (text_of ''x''))])])"
    by (simp add: twoEntriesSwapped_def sinceExample_def sinceExampleB_def walker_defs example_defs)
  have c: "Marshal exampleExtern exampleOptions (twoEntries StringKey ''soon'' ''1'')
       = Error (VersionParseError ''soon'')"
    by (simp add: twoEntries_def sinceExample_def sinceExampleB_def walker_defs example_defs)
  have d: "Marshal exampleExtern exampleOptions (twoEntriesSwapped StringKey ''soon'' ''1'')
       = Error (VersionParseError ''soon'')"
    by (simp add: twoEntriesSwapped_def sinceExample_def sinceExampleB_def walker_defs example_defs)
  note t1 = marshal_deterministic [OF same_value_twoEntries [of StringKey "''1''" "''2''"],
      of exampleExtern exampleOptions]
  note t2 = marshal_deterministic [OF same_value_twoEntries [of StringKey "''soon''" "''1''"],
      of exampleExtern exampleOptions]
  from t1 faithful_example
  have o: "same_outcome (Marshal exampleExtern exampleOptions (twoEntries StringKey ''1'' ''2''))
        (Marshal exampleExtern exampleOptions (twoEntriesSwapped StringKey ''1'' ''2''))"
    by blast
  from t2 exact_example stops_agree_twoEntries
  have r: "same_result (Marshal exampleExtern exampleOptions (twoEntries StringKey ''soon'' ''1''))
        (Marshal exampleExtern exampleOptions (twoEntriesSwapped StringKey ''soon'' ''1''))"
    by blast
  from a b c d o r faithful_example exact_example same_value_twoEntries stops_agree_twoEntries
  show ?thesis by blast
qed

subsection \<open>Version tags that do not parse\<close>

lemma slice_fail:
  "\<exists>x\<in>set xs. \<not> succeeds (fst (marshalValue ext options x groupsSet p emb)) \<Longrightarrow>
   \<not> succeeds (fst (marshalSlice ext options groupsSet emb xs dest p))"
proof (induction xs arbitrary: dest)
  case Nil
  then show ?case by simp
next
  case (Cons x xs)
  show ?case
  proof (cases "fst (marshalValue ext options x groupsSet p emb)")
    case (Return d)
    with Cons.prems have "\<exists>x\<in>set xs. \<not> succeeds (fst (marshalValue ext options x groupsSet p emb))"
      by simp
    from Cons.IH [OF this] Return show ?thesis
      unfolding marshalSlice_Cons_fst by simp
  next
    case (Error err)
    then show ?thesis unfolding marshalSlice_Cons_fst by simp
  next
    case (Panic pn)
    then show ?thesis unfolding marshalSlice_Cons_fst by simp
  qed
qed

lemma version_check_fails:
  "shouldShowFromSince ext options f = Inl r \<Longrightarrow> \<not> succeeds r"
  "shouldShowFromUntil ext options f = Inl r \<Longrightarrow> \<not> succeeds r"
  by (auto simp: shouldShowFromSince_def shouldShowFromUntil_def split: if_splits option.splits)

lemma unparsed_tag_fails:
  assumes "\<not> skipped f" and "unparsed_tag ext f"
  shows "\<not> succeeds (fst (marshalFields ext options groupsSet emb (f # fs) dest p))"
proof (cases "shouldShowFromSince ext options f")
  case (Inl r)
  with assms(1) version_check_fails(1) [OF Inl] show ?thesis by simp
next
  case si: (Inr b)
  with assms(2) have "until f \<noteq> []" "NewVersion ext (until f) = None"
    by (auto simp: unparsed_tag_def shouldShowFromSince_def split: if_splits)
  then have "shouldShowFromUntil ext options f = Inl (Error (VersionParseError (until f)))"
    by (simp add: shouldShowFromUntil_def)
  with assms(1) si show ?thesis by simp
qed

lemma field_value_fails:
  assumes "\<not> skipped f"
    and "\<And>p emb. \<not> succeeds (fst (marshalValue ext options (fieldVal f) groupsSet p emb))"
  shows "\<not> succeeds (fst (marshalFields ext options groupsSet emb (f # fs) dest p))"
proof (cases "shouldShowFromSince ext options f")
  case (Inl r)
  with assms(1) version_check_fails(1) [OF Inl] show ?thesis by simp
next
  case si: (Inr b)
  show ?thesis
  proof (cases "shouldShowFromUntil ext options f")
    case (Inl r)
    with assms(1) si version_check_fails(2) [OF Inl] show ?thesis by simp
  next
    case un: (Inr ba)
    from assms(2) [of "pushParents options f (groupNames options p f) p" "isEmbeddedField f"]
    show ?thesis
      unfolding marshalFields_Cons_fst [OF assms(1) si un]
      by (cases "fst (marshalValue ext options (fieldVal f) groupsSet
            (pushParents options f (groupNames options p f) p) (isEmbeddedField f))") simp_all
  qed
qed

lemma later_field_fails:
  assumes "\<And>p emb dest. \<not> succeeds (fst (marshalFields ext options groupsSet emb fs dest p))"
  shows "\<not> succeeds (fst (marshalFields ext options groupsSet emb (f # fs) dest p))"
proof (cases "skipped f")
  case True
  with assms show ?thesis by simp
next
  case sk: False
  show ?thesis
  proof (cases "shouldShowFromSince ext options f")
    case (Inl r)
    with sk version_check_fails(1) [OF Inl] show ?thesis by simp
  next
    case si: (Inr b)
    show ?thesis
    proof (cases "shouldShowFromUntil ext options f")
      case (Inl r)
      with sk si version_check_fails(2) [OF Inl] show ?thesis by simp
    next
      case un: (Inr ba)
      show ?thesis
        unfolding marshalFields_Cons_fst [OF sk si un]
        using assms
        by (cases "fst (marshalValue ext options (fieldVal f) groupsSet
              (pushParents options f (groupNames options p f) p) (isEmbeddedField f))") simp_all
    qed
  qed
qed

lemma meets_fails:
  "meets_object ext data \<Longrightarrow>
     (\<forall>p emb. \<not> succeeds (fst (marshalObject ext options data groupsSet p emb)))"
  "meets_fields ext fs \<Longrightarrow>
     (\<forall>p emb dest. \<not> succeeds (fst (marshalFields ext options groupsSet emb fs dest p)))"
  "meets_value ext v \<Longrightarrow>
     (\<forall>p emb. \<not> succeeds (fst (marshalValue ext options v groupsSet p emb)))"
proof (induction rule: meets_object_meets_fields_meets_value.inducts)
  case (object_struct fs c)
  then show ?case by (simp add: marshalObject.simps)
next
  case (object_pointer_struct fs c c')
  then show ?case by (simp add: marshalObject.simps)
next
  case (object_pointer x c)
  then show ?case by (simp add: marshalObject_VPtr)
next
  case (object_other v)
  then show ?case by (cases v) (simp_all add: marshalObject.simps)
next
  case (fields_tag f fs)
  show ?case
  proof (intro allI)
    fix p emb dest
    from fields_tag show "\<not> succeeds (fst (marshalFields ext options groupsSet emb (f # fs) dest p))"
      by (rule unparsed_tag_fails)
  qed
next
  case (fields_value f fs)
  show ?case
  proof (intro allI)
    fix p emb dest
    from fields_value
    show "\<not> succeeds (fst (marshalFields ext options groupsSet emb (f # fs) dest p))"
      by (intro field_value_fails) simp_all
  qed
next
  case (fields_later fs f)
  show ?case
  proof (intro allI)
    fix p emb dest
    from fields_later
    show "\<not> succeeds (fst (marshalFields ext options groupsSet emb (f # fs) dest p))"
      by (intro later_field_fails) simp_all
  qed
next
  case (value_interface v x)
  then show ?case by (simp add: marshalValue_dispatch dispatch_def)
next
  case (value_struct v c fs)
  then show ?case by (simp add: marshalValue_dispatch dispatch_def marshalObject.simps)
next
  case (value_slice v c xs x)
  then have "\<not> succeeds (fst (marshalSlice ext options groupsSet emb xs dest p))"
    for p emb dest
    by (intro slice_fail) auto
  with value_slice show ?case by (simp add: marshalValue_dispatch dispatch_def)
next
  case (value_map v c es key x)
  then have "\<not> succeeds (fst (marshalMap ext options groupsSet emb StringKey es dest p))"
    for p emb dest
    by (intro map_fail) force
  with value_map show ?case by (auto simp: marshalValue_dispatch dispatch_def)
next
  case (value_map_first v c kt key x es)
  then have "\<not> succeeds (fst (marshalMap ext options groupsSet emb kt ((key, x) # es) dest p))"
    for p emb dest
    by (intro map_fail) force
  with value_map_first show ?case by (auto simp: marshalValue_dispatch dispatch_def)
qed

text \<open>
  C6, as stated, fails: a field whose naming tag is \<^verbatim>\<open>-\<close> is left out before its
  version tags are read, so an input that holds a since tag that does not parse can
  still be marshalled, to a mapping and no error.
\<close>

theorem skipped_bad_version_counterexample:
  "NewVersion exampleExtern ''soon'' = None
   \<and> Marshal exampleExtern exampleOptions
        (VStruct Plain [Field ''A'' False True ''-'' [] ''soon'' [] (text_of ''x'')])
      = Return (MapNode [])"
  by (simp add: walker_defs example_defs)

text \<open>
  C6, amended. At a field that is not skipped, a since tag that is not empty and does
  not parse makes the loop of \<^verbatim>\<open>marshalObject\<close> return the parse error there, and
  so does an until tag that is not empty and does not parse once the since check has
  given a value: the fields after it are not processed, the output built so far is
  dropped, and parents is as it was. And whenever the walk meets a field with a version
  tag that does not parse, the call of \<^verbatim>\<open>Marshal\<close> returns no result.
\<close>

theorem version_parse_failure_aborts:
  "(\<not> skipped f \<longrightarrow> since f \<noteq> [] \<and> NewVersion ext (since f) = None \<longrightarrow>
      marshalFields ext options groupsSet embeddedParents (f # fs) dest parents
        = (Error (VersionParseError (since f)), parents))
   \<and> (\<not> skipped f \<longrightarrow>
      shouldShowFromSince ext options f = Inr fromSince
        \<and> until f \<noteq> [] \<and> NewVersion ext (until f) = None \<longrightarrow>
      marshalFields ext options groupsSet embeddedParents (f # fs) dest parents
        = (Error (VersionParseError (until f)), parents))
   \<and> (meets_object ext data \<longrightarrow> (\<forall>n. Marshal ext options data \<noteq> Return n))"
proof (intro conjI impI)
  assume "meets_object ext data"
  from meets_fails(1) [OF this, of options "incrementGroups [] (Groups options)"]
  show "\<forall>n. Marshal ext options data \<noteq> Return n"
    by (auto simp: Marshal_def succeeds_def)
qed (simp_all add: shouldShowFromSince_def shouldShowFromUntil_def)

text \<open>
  The failing field sits in a struct inside a slice inside a field of the input; the call
  of \<^verbatim>\<open>Marshal\<close> returns its parse error, though fields after it would have parsed.
\<close>

theorem version_parse_failure_aborts_witness:
  "\<not> skipped (sinceExample ''soon'')
   \<and> marshalFields exampleExtern exampleOptions [(''admin'', 1)] False
        [sinceExample ''soon'', sinceExampleB ''1''] [] []
      = (Error (VersionParseError ''soon''), [])
   \<and> meets_object exampleExtern nestedBadTag
   \<and> Marshal exampleExtern exampleOptions nestedBadTag = Error (VersionParseError ''soon'')"
proof -
  have sk: "\<not> skipped (sinceExample ''soon'')"
    by (simp add: sinceExample_def sinceExampleB_def text_of_def walker_defs)
  have bad: "unparsed_tag exampleExtern (sinceExample ''soon'')"
    by (simp add: unparsed_tag_def sinceExample_def sinceExampleB_def exampleExtern_def)
  have inner: "meets_fields exampleExtern [sinceExample ''soon'', sinceExampleB ''1'']"
    using sk bad by (rule fields_tag)
  have struct: "meets_value exampleExtern
      (VStruct Plain [sinceExample ''soon'', sinceExampleB ''1''])"
    by (rule value_struct [OF _ _ _ inner, where c = Plain]) simp_all
  have slice: "meets_value exampleExtern
      (VSlice Plain [VStruct Plain [sinceExample ''soon'', sinceExampleB ''1'']])"
    by (rule value_slice [OF _ _ _ _ struct, where c = Plain
          and xs = "[VStruct Plain [sinceExample ''soon'', sinceExampleB ''1'']]"]) simp_all
  have "meets_fields exampleExtern
      [Field ''Outer'' False True [] ''admin'' [] []
         (VSlice Plain [VStruct Plain [sinceExample ''soon'', sinceExampleB ''1'']]),
       sinceExample ''2'']"
    by (rule fields_value) (simp_all add: slice fieldVal_def walker_defs)
  then have m: "meets_object exampleExtern nestedBadTag"
    unfolding nestedBadTag_def by (rule object_struct)
  have e: "Marshal exampleExtern exampleOptions nestedBadTag = Error (VersionParseError ''soon'')"
    by (simp add: nestedBadTag_def walker_defs example_defs sinceExample_def sinceExampleB_def)
  from m sk e
    version_parse_failure_aborts [of "sinceExample ''soon''" exampleExtern exampleOptions
      "[(''admin'', 1)]" False "[sinceExampleB ''1'']" "[]" "[]" True nestedBadTag]
  show ?thesis
    by (simp add: sinceExample_def sinceExampleB_def exampleExtern_def)
qed

subsection \<open>A failure anywhere in the walk is the result of Marshal\<close>

lemma failure_handed_up:
  assumes "invokes ext options groupsSet c c'"
    and "\<not> succeeds (fst (outcome ext options groupsSet c'))"
  shows "fst (outcome ext options groupsSet c) = fst (outcome ext options groupsSet c')"
  using assms
proof cases
  case (call_pointer x c parents embeddedParents)
  then show ?thesis by (simp add: marshalObject_VPtr)
next
  case (call_other data parents embeddedParents)
  then show ?thesis by (cases data) (simp_all add: marshalObject.simps)
next
  case (loop_value f fromSince fromUntil embeddedParents fs dest parents)
  with assms(2) show ?thesis
    by (cases "marshalValue ext options (fieldVal f) groupsSet
          (pushParents options f (groupNames options parents f) parents) (isEmbeddedField f)";
        cases "fst (marshalValue ext options (fieldVal f) groupsSet
          (pushParents options f (groupNames options parents f) parents) (isEmbeddedField f))")
       simp_all
next
  case (slice_element embeddedParents x xs dest parents)
  with assms(2) show ?thesis
    by (cases "marshalValue ext options x groupsSet parents embeddedParents";
        cases "fst (marshalValue ext options x groupsSet parents embeddedParents)") simp_all
next
  case (map_entry embeddedParents kt key x es dest parents)
  with assms(2) show ?thesis
    by (cases "marshalValue ext options x groupsSet parents embeddedParents";
        cases "fst (marshalValue ext options x groupsSet parents embeddedParents)") simp_all
qed (simp_all add: marshalObject.simps marshalValue_dispatch dispatch_def)

lemma reached_top: "reached ext options data (ObjectCall data [] False)"
  by (simp add: reached_def)

lemma reached_step:
  "reached ext options data c \<Longrightarrow>
   invokes ext options (incrementGroups [] (Groups options)) c c' \<Longrightarrow>
   reached ext options data c'"
  by (simp add: reached_def)

lemma first_failure_is_the_result:
  assumes "reached ext options data c"
    and "\<not> succeeds (fst (outcome ext options (incrementGroups [] (Groups options)) c))"
  shows "Marshal ext options data
    = fst (outcome ext options (incrementGroups [] (Groups options)) c)"
  using assms unfolding reached_def
proof (induction rule: rtranclp_induct)
  case base
  then show ?case by (simp add: Marshal_def)
next
  case (step c c')
  from failure_handed_up [OF step.hyps(2) step.prems]
  show ?case using step by simp
qed

text \<open>
  C2. For a field that reaches the recursion step (it is not skipped, and neither
  version check has left the call), \<^verbatim>\<open>marshalValue\<close> runs on its value whatever
  the group, since and until checks said. An error of that call is the result of the
  loop, whether the field would have been stored or not. A value that comes back is
  written to the output mapping exactly when the three checks passed, under the field's
  key, or entry by entry for a mapping that comes back from an embedded field, and the
  loop goes on with the next field; when no field is left the mapping is the result.
  And when the loop at this field is one that the call of \<^verbatim>\<open>Marshal\<close> comes to,
  so is the call of \<^verbatim>\<open>marshalValue\<close> on its value, and an error of that call is
  the result of \<^verbatim>\<open>Marshal\<close>: every caller in between hands it up.
\<close>

theorem hidden_field_is_walked:
  assumes "\<not> skipped f"
    and "shouldShowFromSince ext options f = Inr fromSince"
    and "shouldShowFromUntil ext options f = Inr fromUntil"
  shows "(\<forall>err parents'.
            marshalValue ext options (fieldVal f) groupsSet
              (pushParents options f (groupNames options parents f) parents)
              (isEmbeddedField f) = (Error err, parents') \<longrightarrow>
            fst (marshalFields ext options groupsSet embeddedParents (f # fs) dest parents)
              = Error err)
       \<and> (\<forall>v parents'.
            marshalValue ext options (fieldVal f) groupsSet
              (pushParents options f (groupNames options parents f) parents)
              (isEmbeddedField f) = (Return v, parents') \<longrightarrow>
            marshalFields ext options groupsSet embeddedParents (f # fs) dest parents =
            marshalFields ext options groupsSet embeddedParents fs
              (if shouldShowFromGroup options groupsSet parents embeddedParents
                    (isEmbeddedField f) f \<and> fromSince \<and> fromUntil
               then (case v of
                       MapNode nestedVal \<Rightarrow>
                         if isEmbeddedField f
                         then fold (\<lambda>(k, w). AList.update k w) nestedVal dest
                         else AList.update (jsonTag f) v dest
                     | _ \<Rightarrow> AList.update (jsonTag f) v dest)
               else dest)
              (popParents options f (groupNames options parents f) parents'))
       \<and> marshalFields ext options groupsSet embeddedParents [] dest parents
            = (Return (MapNode dest), parents)
       \<and> (reached ext options data (FieldsLoop embeddedParents (f # fs) dest parents) \<longrightarrow>
            reached ext options data
              (ValueCall (fieldVal f)
                 (pushParents options f (groupNames options parents f) parents)
                 (isEmbeddedField f))
            \<and> (\<forall>err parents'.
                 marshalValue ext options (fieldVal f) (incrementGroups [] (Groups options))
                   (pushParents options f (groupNames options parents f) parents)
                   (isEmbeddedField f) = (Error err, parents') \<longrightarrow>
                 Marshal ext options data = Error err))"
proof (intro conjI impI allI)
  fix err parents'
  assume "marshalValue ext options (fieldVal f) groupsSet
      (pushParents options f (groupNames options parents f) parents)
      (isEmbeddedField f) = (Error err, parents')"
  then show "fst (marshalFields ext options groupsSet embeddedParents (f # fs) dest parents)
      = Error err"
    unfolding marshalFields_step [OF assms] by simp
next
  fix v parents'
  assume "marshalValue ext options (fieldVal f) groupsSet
      (pushParents options f (groupNames options parents f) parents)
      (isEmbeddedField f) = (Return v, parents')"
  then show "marshalFields ext options groupsSet embeddedParents (f # fs) dest parents =
      marshalFields ext options groupsSet embeddedParents fs
        (if shouldShowFromGroup options groupsSet parents embeddedParents
              (isEmbeddedField f) f \<and> fromSince \<and> fromUntil
         then (case v of
                 MapNode nestedVal \<Rightarrow>
                   if isEmbeddedField f
                   then fold (\<lambda>(k, w). AList.update k w) nestedVal dest
                   else AList.update (jsonTag f) v dest
               | _ \<Rightarrow> AList.update (jsonTag f) v dest)
         else dest)
        (popParents options f (groupNames options parents f) parents')"
    unfolding marshalFields_step [OF assms] by (simp add: store_def)
next
  show "marshalFields ext options groupsSet embeddedParents [] dest parents
      = (Return (MapNode dest), parents)"
    by simp
next
  assume r: "reached ext options data (FieldsLoop embeddedParents (f # fs) dest parents)"
  from r loop_value [OF assms]
  show v: "reached ext options data
      (ValueCall (fieldVal f) (pushParents options f (groupNames options parents f) parents)
         (isEmbeddedField f))"
    by (rule reached_step)
  fix err parents'
  assume "marshalValue ext options (fieldVal f) (incrementGroups [] (Groups options))
      (pushParents options f (groupNames options parents f) parents)
      (isEmbeddedField f) = (Error err, parents')"
  with first_failure_is_the_result [OF v]
  show "Marshal ext options data = Error err"
    by simp
qed

text \<open>
  The field \<open>hiddenBadMap\<close> fails the group check and the since check. In a struct
  in a slice in a field of the input, after a field that was stored, the error of its
  map with integer keys is what \<^verbatim>\<open>Marshal\<close> returns. The hidden field
  \<open>hiddenText\<close> is walked and leaves the output as it was; the visible field is walked
  and stored.
\<close>

theorem hidden_field_is_walked_witness:
  "reached exampleExtern exampleOptions nestedHiddenMap
     (FieldsLoop False [hiddenBadMap] [(''A'', Verbatim (text_of ''x''))] [])
   \<and> \<not> skipped hiddenBadMap
   \<and> shouldShowFromSince exampleExtern exampleOptions hiddenBadMap = Inr False
   \<and> shouldShowFromUntil exampleExtern exampleOptions hiddenBadMap = Inr True
   \<and> \<not> shouldShowFromGroup exampleOptions (incrementGroups [] [''admin'']) [] False
         (isEmbeddedField hiddenBadMap) hiddenBadMap
   \<and> Marshal exampleExtern exampleOptions nestedHiddenMap
     = Error (MarshalInvalidTypeError Int_kind
         (VMap Plain (OtherKey Int_kind) [(''7'', text_of ''x'')]))
   \<and> \<not> skipped hiddenText
   \<and> marshalFields exampleExtern exampleOptions (incrementGroups [] [''admin'']) False
        [hiddenText] [(''A'', Verbatim (text_of ''x''))] []
     = (Return (MapNode [(''A'', Verbatim (text_of ''x''))]), [])
   \<and> marshalFields exampleExtern exampleOptions (incrementGroups [] [''admin'']) False
        [sinceExample ''1''] [] []
     = (Return (MapNode [(''A'', Verbatim (text_of ''x''))]), [])"
proof -
  let ?gs = "incrementGroups [] (Groups exampleOptions)"
  let ?inner = "VStruct Plain [sinceExample ''1'', hiddenBadMap]"
  let ?outer = "Field ''Outer'' False True [] ''admin'' [] [] (VSlice Plain [?inner])"
  have gs: "?gs = incrementGroups [] [''admin'']"
    by (simp add: exampleOptions_def)
  have a: "\<not> skipped hiddenBadMap"
    by (simp add: skipped_def hiddenBadMap_def jsonTag_def parseTag_def Contains_def)
  have b: "shouldShowFromSince exampleExtern exampleOptions hiddenBadMap = Inr False"
    by (simp add: shouldShowFromSince_def hiddenBadMap_def exampleExtern_def exampleOptions_def)
  have c: "shouldShowFromUntil exampleExtern exampleOptions hiddenBadMap = Inr True"
    by (simp add: shouldShowFromUntil_def hiddenBadMap_def)
  have d: "\<not> shouldShowFromGroup exampleOptions (incrementGroups [] [''admin'']) [] False
         (isEmbeddedField hiddenBadMap) hiddenBadMap"
    by (simp add: shouldShowFromGroup_def hiddenBadMap_def exampleOptions_def checkGroups_def
        groupNames_def Split_def contains_def index_def isEmbeddedField_def)
  have e: "marshalValue exampleExtern exampleOptions (fieldVal hiddenBadMap) ?gs
      (pushParents exampleOptions hiddenBadMap (groupNames exampleOptions [] hiddenBadMap) [])
      (isEmbeddedField hiddenBadMap)
    = (Error (MarshalInvalidTypeError Int_kind
         (VMap Plain (OtherKey Int_kind) [(''7'', text_of ''x'')])), [])"
    by (simp add: fieldVal_def hiddenBadMap_def marshalValue_plain_map pushParents_def
        isEmbeddedField_def exampleOptions_def)
  have c1: "reached exampleExtern exampleOptions nestedHiddenMap (FieldsLoop False [?outer] [] [])"
    unfolding nestedHiddenMap_def by (rule reached_step [OF reached_top call_struct])
  have "\<not> skipped ?outer" "shouldShowFromSince exampleExtern exampleOptions ?outer = Inr True"
    "shouldShowFromUntil exampleExtern exampleOptions ?outer = Inr True"
    by (simp_all add: walker_defs)
  from reached_step [OF c1 loop_value [OF this]]
  have c2: "reached exampleExtern exampleOptions nestedHiddenMap
      (ValueCall (VSlice Plain [?inner]) [] False)"
    by (simp add: fieldVal_def isEmbeddedField_def pushParents_def exampleOptions_def)
  have c3: "reached exampleExtern exampleOptions nestedHiddenMap (SliceLoop False [?inner] [] [])"
    by (rule reached_step [OF c2 walk_slice [where c = Plain]]) simp_all
  have c4: "reached exampleExtern exampleOptions nestedHiddenMap (ValueCall ?inner [] False)"
    by (rule reached_step [OF c3 slice_element])
  have c5: "reached exampleExtern exampleOptions nestedHiddenMap (ObjectCall ?inner [] False)"
    by (rule reached_step [OF c4 walk_struct [where c = Plain]]) simp_all
  have c6: "reached exampleExtern exampleOptions nestedHiddenMap
      (FieldsLoop False [sinceExample ''1'', hiddenBadMap] [] [])"
    by (rule reached_step [OF c5 call_struct])
  have "\<not> skipped (sinceExample ''1'')"
    "shouldShowFromSince exampleExtern exampleOptions (sinceExample ''1'') = Inr True"
    "shouldShowFromUntil exampleExtern exampleOptions (sinceExample ''1'') = Inr True"
    "marshalValue exampleExtern exampleOptions (fieldVal (sinceExample ''1'')) ?gs
       (pushParents exampleOptions (sinceExample ''1'')
          (groupNames exampleOptions [] (sinceExample ''1'')) [])
       (isEmbeddedField (sinceExample ''1'')) = (Return (Verbatim (text_of ''x'')), [])"
    by (simp_all add: sinceExample_def walker_defs example_defs)
  from reached_step [OF c6 loop_next [OF this]]
  have c7: "reached exampleExtern exampleOptions nestedHiddenMap
     (FieldsLoop False [hiddenBadMap] [(''A'', Verbatim (text_of ''x''))] [])"
    by (simp add: sinceExample_def walker_defs example_defs)
  note t = hidden_field_is_walked [OF a b c, of ?gs "[]" False "[]"
      "[(''A'', Verbatim (text_of ''x''))]" nestedHiddenMap]
  from t c7 e
  have m: "Marshal exampleExtern exampleOptions nestedHiddenMap
     = Error (MarshalInvalidTypeError Int_kind
         (VMap Plain (OtherKey Int_kind) [(''7'', text_of ''x'')]))"
    by blast
  have sk: "\<not> skipped hiddenText"
    and si: "shouldShowFromSince exampleExtern exampleOptions hiddenText = Inr False"
    and un: "shouldShowFromUntil exampleExtern exampleOptions hiddenText = Inr True"
    by (simp_all add: hiddenText_def walker_defs example_defs)
  have call: "marshalValue exampleExtern exampleOptions (fieldVal hiddenText)
      (incrementGroups [] [''admin''])
      (pushParents exampleOptions hiddenText (groupNames exampleOptions [] hiddenText) [])
      (isEmbeddedField hiddenText) = (Return (Verbatim (text_of ''s'')), [])"
    by (simp add: hiddenText_def walker_defs example_defs)
  from hidden_field_is_walked [OF sk si un, of "incrementGroups [] [''admin'']" "[]" False "[]"
      "[(''A'', Verbatim (text_of ''x''))]"] call
  have h: "marshalFields exampleExtern exampleOptions (incrementGroups [] [''admin'']) False
        [hiddenText] [(''A'', Verbatim (text_of ''x''))] []
     = (Return (MapNode [(''A'', Verbatim (text_of ''x''))]), [])"
    by (simp add: hiddenText_def walker_defs example_defs)
  have sk1: "\<not> skipped (sinceExample ''1'')"
    and si1: "shouldShowFromSince exampleExtern exampleOptions (sinceExample ''1'') = Inr True"
    and un1: "shouldShowFromUntil exampleExtern exampleOptions (sinceExample ''1'') = Inr True"
    by (simp_all add: sinceExample_def walker_defs example_defs)
  have call1: "marshalValue exampleExtern exampleOptions (fieldVal (sinceExample ''1''))
      (incrementGroups [] [''admin''])
      (pushParents exampleOptions (sinceExample ''1'')
         (groupNames exampleOptions [] (sinceExample ''1'')) [])
      (isEmbeddedField (sinceExample ''1'')) = (Return (Verbatim (text_of ''x'')), [])"
    by (simp add: sinceExample_def walker_defs example_defs)
  from hidden_field_is_walked [OF sk1 si1 un1, of "incrementGroups [] [''admin'']" "[]" False
      "[]" "[]"] call1
  have v: "marshalFields exampleExtern exampleOptions (incrementGroups [] [''admin'']) False
        [sinceExample ''1''] [] []
     = (Return (MapNode [(''A'', Verbatim (text_of ''x''))]), [])"
    by (simp add: sinceExample_def walker_defs example_defs)
  from c7 a b c d m sk h v show ?thesis by blast
qed

end
